theory Spec2Isabelle
  imports Main
begin

section \<open>Strings of the summary generator\<close>

text \<open>
  The generator (scripts/generateSummary.ts) works on JavaScript strings: sequences of
  UTF-16 code units, whose \<open>length\<close>, \<open>slice\<close> and regular expressions (none of them has
  the \<open>u\<close> flag) all count code units. A code unit is modelled by its number, a string
  by the list of its code units. ASCII literals of the source are written \<open>asc ''...''\<close>,
  the CJK punctuation marks by their code.
\<close>

type_synonym jchar = nat
type_synonym jstring = "nat list"

abbreviation asc :: "string \<Rightarrow> jstring" where
  "asc s \<equiv> map of_char s"

abbreviation LF :: jchar where "LF \<equiv> 0x0A"
abbreviation CR :: jchar where "CR \<equiv> 0x0D"
abbreviation SPACE :: jchar where "SPACE \<equiv> 0x20"
abbreviation DQUOTE :: jchar where "DQUOTE \<equiv> 0x22"
abbreviation BACKSLASH :: jchar where "BACKSLASH \<equiv> 0x5C"
abbreviation BACKTICK :: jchar where "BACKTICK \<equiv> 0x60"
abbreviation COLON :: jchar where "COLON \<equiv> 0x3A"
abbreviation SEMICOLON :: jchar where "SEMICOLON \<equiv> 0x3B"
text \<open>U+3002 ideographic full stop, U+FF01 fullwidth exclamation mark, U+FF0C fullwidth
  comma, U+FF1A fullwidth colon, U+FF1B fullwidth semicolon, U+FF1F fullwidth question
  mark, U+3001 ideographic comma, U+2026 horizontal ellipsis.\<close>
abbreviation CJK_STOP :: jchar where "CJK_STOP \<equiv> 0x3002"
abbreviation CJK_EXCL :: jchar where "CJK_EXCL \<equiv> 0xFF01"
abbreviation CJK_COMMA :: jchar where "CJK_COMMA \<equiv> 0xFF0C"
abbreviation CJK_COLON :: jchar where "CJK_COLON \<equiv> 0xFF1A"
abbreviation CJK_SEMI :: jchar where "CJK_SEMI \<equiv> 0xFF1B"
abbreviation CJK_QUEST :: jchar where "CJK_QUEST \<equiv> 0xFF1F"
abbreviation CJK_ENUM_COMMA :: jchar where "CJK_ENUM_COMMA \<equiv> 0x3001"
abbreviation ELLIPSIS :: jchar where "ELLIPSIS \<equiv> 0x2026"

text \<open>The class \<open>\s\<close> of a regular expression, which is also what \<open>trim\<close> strips:
  white space and line terminators.\<close>
definition isSpace :: "jchar \<Rightarrow> bool" where
  "isSpace c \<longleftrightarrow>
     c = 0x09 \<or> c = 0x0A \<or> c = 0x0B \<or> c = 0x0C \<or> c = 0x0D \<or> c = 0x20 \<or> c = 0xA0 \<or>
     c = 0x1680 \<or> (0x2000 \<le> c \<and> c \<le> 0x200A) \<or> c = 0x2028 \<or> c = 0x2029 \<or>
     c = 0x202F \<or> c = 0x205F \<or> c = 0x3000 \<or> c = 0xFEFF"

text \<open>\<open>String.prototype.trimStart\<close>, \<open>trim\<close>.\<close>
definition trimStart :: "jstring \<Rightarrow> jstring" where
  "trimStart s = dropWhile isSpace s"

definition trim :: "jstring \<Rightarrow> jstring" where
  "trim s = rev (dropWhile isSpace (rev (dropWhile isSpace s)))"

text \<open>\<open>Array.prototype.join\<close>.\<close>
fun join :: "jstring \<Rightarrow> jstring list \<Rightarrow> jstring" where
  "join sep [] = []"
| "join sep [x] = x"
| "join sep (x # y # ys) = x @ sep @ join sep (y # ys)"

text \<open>\<open>s.endsWith(c)\<close> for a one-character string \<open>c\<close>.\<close>
definition endsWith :: "jstring \<Rightarrow> jchar \<Rightarrow> bool" where
  "endsWith s c \<longleftrightarrow> s \<noteq> [] \<and> last s = c"

subsection \<open>Replacements on character classes\<close>

text \<open>\<open>s.replace(/[cls]+/g, rep)\<close>: every maximal run of characters of the class
  becomes one copy of \<open>rep\<close>.\<close>
function replaceRuns :: "(jchar \<Rightarrow> bool) \<Rightarrow> jstring \<Rightarrow> jstring \<Rightarrow> jstring" where
  "replaceRuns cls rep [] = []"
| "replaceRuns cls rep (c # cs) =
     (if cls c then rep @ replaceRuns cls rep (dropWhile cls cs)
      else c # replaceRuns cls rep cs)"
  by pat_completeness auto
termination
  by (relation "measure (\<lambda>(cls, rep, s). length s)")
     (auto simp: length_dropWhile_le le_imp_less_Suc)

text \<open>\<open>s.replace(/[cls]{2,}/g, rep)\<close>: only runs of two or more are replaced.\<close>
function replaceRuns2 :: "(jchar \<Rightarrow> bool) \<Rightarrow> jstring \<Rightarrow> jstring \<Rightarrow> jstring" where
  "replaceRuns2 cls rep [] = []"
| "replaceRuns2 cls rep [c] = [c]"
| "replaceRuns2 cls rep (c # d # cs) =
     (if cls c \<and> cls d then rep @ replaceRuns2 cls rep (dropWhile cls cs)
      else c # replaceRuns2 cls rep (d # cs))"
  by pat_completeness auto
termination
  by (relation "measure (\<lambda>(cls, rep, s). length s)")
     (auto simp: length_dropWhile_le le_imp_less_Suc less_Suc_eq_le le_SucI)

text \<open>\<open>s.replace(/[cls]/g, '')\<close>.\<close>
definition removeClass :: "(jchar \<Rightarrow> bool) \<Rightarrow> jstring \<Rightarrow> jstring" where
  "removeClass cls s = filter (\<lambda>c. \<not> cls c) s"

text \<open>\<open>s.replace(/[cls]+$/g, '')\<close> (no \<open>m\<close> flag: \<open>$\<close> is the end of the string): the
  run of class characters that ends the string is removed.\<close>
definition stripTrailing :: "(jchar \<Rightarrow> bool) \<Rightarrow> jstring \<Rightarrow> jstring" where
  "stripTrailing cls s = rev (dropWhile cls (rev s))"

text \<open>\<open>s.split(/[cls]+/)\<close>: the pieces between the maximal runs of class characters;
  a run at the start or at the end of the string gives an empty piece there, and the
  empty string gives one empty piece.\<close>
function splitAcc :: "(jchar \<Rightarrow> bool) \<Rightarrow> jstring \<Rightarrow> jstring \<Rightarrow> jstring list" where
  "splitAcc cls piece [] = [piece]"
| "splitAcc cls piece (c # cs) =
     (if cls c then piece # splitAcc cls [] (dropWhile cls cs)
      else splitAcc cls (piece @ [c]) cs)"
  by pat_completeness auto
termination
  by (relation "measure (\<lambda>(cls, piece, s). length s)")
     (auto simp: length_dropWhile_le le_imp_less_Suc)

definition splitRuns :: "(jchar \<Rightarrow> bool) \<Rightarrow> jstring \<Rightarrow> jstring list" where
  "splitRuns cls s = splitAcc cls [] s"

section \<open>The declarative-sentence canonicalizer\<close>

text \<open>The character classes of \<open>toDeclarativeSentence\<close>, in the order of the source.\<close>

definition clsStop :: "jchar \<Rightarrow> bool" where  \<comment> \<open>\<open>[\.;]\<close>\<close>
  "clsStop c \<longleftrightarrow> c = of_char CHR ''.'' \<or> c = SEMICOLON"

definition clsExcl :: "jchar \<Rightarrow> bool" where  \<comment> \<open>\<open>[!?]\<close>\<close>
  "clsExcl c \<longleftrightarrow> c = of_char CHR ''!'' \<or> c = of_char CHR ''?''"

definition clsComma :: "jchar \<Rightarrow> bool" where  \<comment> \<open>ASCII and fullwidth comma\<close>
  "clsComma c \<longleftrightarrow> c = of_char CHR '','' \<or> c = CJK_COMMA"

definition clsColon :: "jchar \<Rightarrow> bool" where  \<comment> \<open>ASCII and fullwidth colon\<close>
  "clsColon c \<longleftrightarrow> c = COLON \<or> c = CJK_COLON"

definition clsSemi :: "jchar \<Rightarrow> bool" where  \<comment> \<open>ASCII and fullwidth semicolon\<close>
  "clsSemi c \<longleftrightarrow> c = SEMICOLON \<or> c = CJK_SEMI"

definition clsSymbol :: "jchar \<Rightarrow> bool" where  \<comment> \<open>\<open>["'`~^_*@#$%&+=<>]\<close>\<close>
  "clsSymbol c \<longleftrightarrow> c \<in> set (asc [CHR 0x22, CHR 0x27, CHR 0x60, CHR ''~'', CHR ''^'',
     CHR ''_'', CHR ''*'', CHR ''@'', CHR ''#'', CHR ''$'', CHR ''%'', CHR ''&'',
     CHR ''+'', CHR ''='', CHR ''<'', CHR ''>''])"

definition clsBracket :: "jchar \<Rightarrow> bool" where
  \<comment> \<open>\<open>[\(\)\[\]\{\}( )[ ]]\<close> with the fullwidth parentheses U+FF08, U+FF09 and the
      lenticular brackets U+3010, U+3011; the class of the source also holds the ASCII
      space written between them.\<close>
  "clsBracket c \<longleftrightarrow> c \<in> set (asc ''()[]{}'') \<or> c = 0xFF08 \<or> c = SPACE \<or> c = 0xFF09 \<or>
     c = 0x3010 \<or> c = 0x3011"

definition clsSlash :: "jchar \<Rightarrow> bool" where  \<comment> \<open>\<open>[|\\/]\<close>\<close>
  "clsSlash c \<longleftrightarrow> c = of_char CHR ''|'' \<or> c = BACKSLASH \<or> c = of_char CHR ''/''"

definition clsSentenceEnd :: "jchar \<Rightarrow> bool" where
  \<comment> \<open>the separator class of \<open>split\<close>: U+3002, U+FF01, U+FF1F, \<open>!\<close>, U+FF1F, U+2026\<close>
  "clsSentenceEnd c \<longleftrightarrow> c = CJK_STOP \<or> c = CJK_EXCL \<or> c = CJK_QUEST \<or>
     c = of_char CHR ''!'' \<or> c = ELLIPSIS"

definition clsTrailing :: "jchar \<Rightarrow> bool" where
  \<comment> \<open>U+FF0C, U+3001, U+FF1A, U+FF1B, removed at the end of the merged clause\<close>
  "clsTrailing c \<longleftrightarrow> c = CJK_COMMA \<or> c = CJK_ENUM_COMMA \<or> c = CJK_COLON \<or> c = CJK_SEMI"

text \<open>The first statement of \<open>toDeclarativeSentence\<close>: the chain of five replacements
  that unifies the punctuation.\<close>
definition unifyPunctuation :: "jstring \<Rightarrow> jstring" where
  "unifyPunctuation s =
     replaceRuns clsSemi [CJK_SEMI]
       (replaceRuns clsColon [CJK_COLON]
         (replaceRuns clsComma [CJK_COMMA]
           (replaceRuns clsExcl [CJK_EXCL]
             (replaceRuns clsStop [CJK_STOP] s))))"

text \<open>The second statement: the three removals of decorative symbols.\<close>
definition removeSymbols :: "jstring \<Rightarrow> jstring" where
  "removeSymbols s = removeClass clsSlash (removeClass clsBracket (removeClass clsSymbol s))"

text \<open>Split at sentence ends, trim the pieces, drop the empty ones, join with a
  fullwidth comma, then collapse white space and repeated commas and trim.\<close>
definition mergeClauses :: "jstring \<Rightarrow> jstring" where
  "mergeClauses s =
     (let parts = filter (\<lambda>t. t \<noteq> []) (map trim (splitRuns clsSentenceEnd s));
          merged = join [CJK_COMMA] parts
      in trim (replaceRuns2 (\<lambda>c. c = CJK_COMMA) [CJK_COMMA]
                 (replaceRuns2 isSpace [SPACE] merged)))"

text \<open>\<open>toDeclarativeSentence(text, maxLen)\<close>. \<open>maxLen\<close> is an integer in every call of
  the source (the constant \<open>SUMMARY_MAX_LEN = 500\<close>); \<open>slice(0, coreMax)\<close> keeps the first
  \<open>coreMax\<close> code units. Both branches of the length test strip the same trailing class.\<close>
definition toDeclarativeSentence :: "jstring \<Rightarrow> int \<Rightarrow> jstring" where
  "toDeclarativeSentence text maxLen =
     (let s = removeSymbols (unifyPunctuation text);
          merged = mergeClauses s;
          coreMax = max 1 (maxLen - 1);
          merged = (if int (length merged) > coreMax
                    then stripTrailing clsTrailing (take (nat coreMax) merged)
                    else stripTrailing clsTrailing merged)
      in if endsWith merged CJK_STOP then merged else merged @ [CJK_STOP])"

abbreviation SUMMARY_MAX_LEN :: int where "SUMMARY_MAX_LEN \<equiv> 500"

section \<open>Regular-expression replacement at a position\<close>

text \<open>
  The remaining regular expressions are translated one by one into a matcher: given the
  character before the current position (\<open>None\<close> at the start of the string) and the
  rest of the string from that position, it returns the length of the match that starts
  exactly there, with the replacement text, or \<open>None\<close>. Every quantifier of these
  expressions is followed by a character it cannot match itself, or by nothing, so the
  backtracking search of the engine has one candidate only: the maximal run.
\<close>

type_synonym matcher = "jchar option \<Rightarrow> jstring \<Rightarrow> (nat \<times> jstring) option"

text \<open>\<open>s.replace(re, rep)\<close> with the \<open>g\<close> flag: the leftmost match is replaced, the
  search goes on behind it; no expression of this file matches the empty string.\<close>
fun replaceAll :: "matcher \<Rightarrow> jchar option \<Rightarrow> jstring \<Rightarrow> jstring" where
  "replaceAll m prev [] = []"
| "replaceAll m prev (c # cs) =
     (case m prev (c # cs) of
        None \<Rightarrow> c # replaceAll m (Some c) cs
      | Some (n, rep) \<Rightarrow> rep @ replaceAll m (Some ((c # cs) ! (n - 1))) (drop (n - 1) cs))"

text \<open>\<open>re.test(s)\<close>: is there a match at some position.\<close>
fun regexTest :: "matcher \<Rightarrow> jchar option \<Rightarrow> jstring \<Rightarrow> bool" where
  "regexTest m prev [] = False"
| "regexTest m prev (c # cs) = (m prev (c # cs) \<noteq> None \<or> regexTest m (Some c) cs)"

definition startsWith :: "jstring \<Rightarrow> jstring \<Rightarrow> bool" where
  "startsWith s p \<longleftrightarrow> take (length p) s = p"

text \<open>The first position at which \<open>p\<close> starts, as a lazy \<open>[\s\S]*?\<close> before \<open>p\<close> finds it.\<close>
fun indexOf :: "jstring \<Rightarrow> jstring \<Rightarrow> nat option" where
  "indexOf p [] = (if p = [] then Some 0 else None)"
| "indexOf p (c # cs) = (if startsWith (c # cs) p then Some 0 else map_option Suc (indexOf p cs))"

text \<open>Line terminators: with the \<open>m\<close> flag \<open>^\<close> holds at the start of the string and
  behind one of them.\<close>
definition isLineTerminator :: "jchar \<Rightarrow> bool" where
  "isLineTerminator c \<longleftrightarrow> c = LF \<or> c = CR \<or> c = 0x2028 \<or> c = 0x2029"

definition atLineStart :: "jchar option \<Rightarrow> bool" where
  "atLineStart prev = (case prev of None \<Rightarrow> True | Some c \<Rightarrow> isLineTerminator c)"

definition isBlank :: "jchar \<Rightarrow> bool" where  \<comment> \<open>\<open>[ \t]\<close>\<close>
  "isBlank c \<longleftrightarrow> c = SPACE \<or> c = 0x09"

definition isDigit :: "jchar \<Rightarrow> bool" where  \<comment> \<open>\<open>\d\<close>\<close>
  "isDigit c \<longleftrightarrow> 0x30 \<le> c \<and> c \<le> 0x39"

definition isWord :: "jchar \<Rightarrow> bool" where  \<comment> \<open>\<open>\w\<close>: \<open>[A-Za-z0-9_]\<close>\<close>
  "isWord c \<longleftrightarrow> (0x41 \<le> c \<and> c \<le> 0x5A) \<or> (0x61 \<le> c \<and> c \<le> 0x7A) \<or> isDigit c \<or> c = 0x5F"

abbreviation FENCE :: jstring where "FENCE \<equiv> [BACKTICK, BACKTICK, BACKTICK]"

definition mFence :: matcher where  \<comment> \<open>three backticks, \<open>[\s\S]*?\<close>, three backticks\<close>
  "mFence prev s =
     (if startsWith s FENCE
      then (case indexOf FENCE (drop 3 s) of None \<Rightarrow> None | Some k \<Rightarrow> Some (k + 6, []))
      else None)"

definition mInlineCode :: matcher where  \<comment> \<open>backtick, \<open>[^`]*\<close>, backtick\<close>
  "mInlineCode prev s =
     (case s of [] \<Rightarrow> None
      | c # t \<Rightarrow>
          if c = BACKTICK \<and> dropWhile (\<lambda>x. x \<noteq> BACKTICK) t \<noteq> []
          then Some (length (takeWhile (\<lambda>x. x \<noteq> BACKTICK) t) + 2, [])
          else None)"

definition mImage :: matcher where  \<comment> \<open>\<open>!\[[^\]]*\]\([^\)]+\)\<close>\<close>
  "mImage prev s =
     (if startsWith s (asc ''!['')
      then (let alt = takeWhile (\<lambda>x. x \<noteq> of_char CHR '']'') (drop 2 s);
                r = drop (2 + length alt) s;
                url = takeWhile (\<lambda>x. x \<noteq> of_char CHR '')'') (drop 2 r)
            in if startsWith r (asc '']('') \<and> url \<noteq> [] \<and> drop (2 + length url) r \<noteq> []
               then Some (2 + length alt + 2 + length url + 1, [])
               else None)
      else None)"

definition mLink :: matcher where  \<comment> \<open>\<open>\[([^\]]+)\]\([^\)]+\)\<close>, replaced by \<open>$1\<close>\<close>
  "mLink prev s =
     (if startsWith s (asc ''['')
      then (let txt = takeWhile (\<lambda>x. x \<noteq> of_char CHR '']'') (drop 1 s);
                r = drop (1 + length txt) s;
                url = takeWhile (\<lambda>x. x \<noteq> of_char CHR '')'') (drop 2 r)
            in if txt \<noteq> [] \<and> startsWith r (asc '']('') \<and> url \<noteq> [] \<and> drop (2 + length url) r \<noteq> []
               then Some (1 + length txt + 2 + length url + 1, txt)
               else None)
      else None)"

abbreviation STAR :: jchar where "STAR \<equiv> 0x2A"
abbreviation UNDERSCORE :: jchar where "UNDERSCORE \<equiv> 0x5F"

definition mEmphasis :: matcher where
  \<comment> \<open>\<open>\*{1,3}([^*]+)\*{1,3}\<close>, replaced by \<open>$1\<close>. At the head of a run of more than three
      stars there is no match: whatever \<open>\*{1,3}\<close> takes, a star follows where \<open>[^*]+\<close>
      must start.\<close>
  "mEmphasis prev s =
     (let n = length (takeWhile (\<lambda>x. x = STAR) s);
          inner = takeWhile (\<lambda>x. x \<noteq> STAR) (drop n s);
          r = drop (n + length inner) s
      in if 1 \<le> n \<and> n \<le> 3 \<and> inner \<noteq> [] \<and> r \<noteq> []
         then Some (n + length inner + min 3 (length (takeWhile (\<lambda>x. x = STAR) r)), inner)
         else None)"

definition mDoubleUnderscore :: matcher where  \<comment> \<open>\<open>__([^_]+)__\<close>, replaced by \<open>$1\<close>\<close>
  "mDoubleUnderscore prev s =
     (let inner = takeWhile (\<lambda>x. x \<noteq> UNDERSCORE) (drop 2 s)
      in if startsWith s (asc ''__'') \<and> inner \<noteq> [] \<and> startsWith (drop (2 + length inner) s) (asc ''__'')
         then Some (2 + length inner + 2, inner)
         else None)"

definition mUnderscore :: matcher where  \<comment> \<open>\<open>_([^_]+)_\<close>, replaced by \<open>$1\<close>\<close>
  "mUnderscore prev s =
     (let inner = takeWhile (\<lambda>x. x \<noteq> UNDERSCORE) (drop 1 s)
      in if startsWith s (asc ''_'') \<and> inner \<noteq> [] \<and> drop (1 + length inner) s \<noteq> []
         then Some (1 + length inner + 1, inner)
         else None)"

definition mHeading :: matcher where
  \<comment> \<open>\<open>^[ \t]*#{1,6}[^\n]*\n\<close> with \<open>m\<close>: a heading line with its line feed; a heading
      on the last line, with no line feed behind it, does not match\<close>
  "mHeading prev s =
     (let indent = takeWhile isBlank s;
          t = drop (length indent) s;
          line = takeWhile (\<lambda>x. x \<noteq> LF) t
      in if atLineStart prev \<and> startsWith t (asc ''#'') \<and> drop (length line) t \<noteq> []
         then Some (length indent + length line + 1, [])
         else None)"

definition mQuote :: matcher where  \<comment> \<open>\<open>^>\s+\<close> with \<open>m\<close>\<close>
  "mQuote prev s =
     (let ws = takeWhile isSpace (drop 1 s)
      in if atLineStart prev \<and> startsWith s (asc ''>'') \<and> ws \<noteq> []
         then Some (1 + length ws, [])
         else None)"

definition mBullet :: matcher where  \<comment> \<open>\<open>^[ \t]*[-*+]\s+\<close> with \<open>m\<close>\<close>
  "mBullet prev s =
     (let indent = takeWhile isBlank s;
          t = drop (length indent) s;
          ws = takeWhile isSpace (drop 1 t)
      in if atLineStart prev \<and> (startsWith t (asc ''-'') \<or> startsWith t (asc ''*'') \<or> startsWith t (asc ''+''))
            \<and> ws \<noteq> []
         then Some (length indent + 1 + length ws, [])
         else None)"

definition mNumbered :: matcher where  \<comment> \<open>\<open>^[ \t]*\d+\.\s+\<close> with \<open>m\<close>\<close>
  "mNumbered prev s =
     (let indent = takeWhile isBlank s;
          t = drop (length indent) s;
          digits = takeWhile isDigit t;
          r = drop (length digits) t;
          ws = takeWhile isSpace (drop 1 r)
      in if atLineStart prev \<and> digits \<noteq> [] \<and> startsWith r (asc ''.'') \<and> ws \<noteq> []
         then Some (length indent + length digits + 1 + length ws, [])
         else None)"

definition mTag :: matcher where  \<comment> \<open>\<open><[^>]+>\<close>\<close>
  "mTag prev s =
     (let inner = takeWhile (\<lambda>x. x \<noteq> of_char CHR ''>'') (drop 1 s)
      in if startsWith s (asc ''<'') \<and> inner \<noteq> [] \<and> drop (1 + length inner) s \<noteq> []
         then Some (1 + length inner + 1, [])
         else None)"

definition mNewlines :: matcher where  \<comment> \<open>\<open>\r?\n+\<close>, replaced by one space\<close>
  "mNewlines prev s =
     (let t = (if startsWith s [CR] \<and> startsWith (drop 1 s) [LF] then drop 1 s else s);
          lfs = takeWhile (\<lambda>x. x = LF) t
      in if lfs \<noteq> [] then Some (length s - length t + length lfs, [SPACE]) else None)"

section \<open>Cleaning a summary text and a body\<close>

text \<open>\<open>sanitizeSummaryText(text, maxLen)\<close>: the replacements in the order of the source
  (the removal of inline code is commented out there), then the canonicalizer.
  \<open>cleanSummaryText\<close> is the value of \<open>s\<close> before the test \<open>if (!s)\<close>.\<close>
definition cleanSummaryText :: "jstring \<Rightarrow> jstring" where
  "cleanSummaryText text =
     (let s = replaceAll mFence None text;
          s = replaceAll mImage None s;
          s = replaceAll mLink None s;
          s = replaceAll mEmphasis None s;
          s = replaceAll mUnderscore None (replaceAll mDoubleUnderscore None s);
          s = replaceAll mHeading None s;
          s = replaceAll mQuote None s;
          s = replaceAll mBullet None s;
          s = replaceAll mNumbered None s;
          s = replaceAll mTag None s;
          s = replaceAll mNewlines None s
      in trim (replaceRuns2 isSpace [SPACE] s))"

definition sanitizeSummaryText :: "jstring \<Rightarrow> int \<Rightarrow> jstring" where
  "sanitizeSummaryText text maxLen =
     (if text = [] then []
      else if cleanSummaryText text = [] then []
      else toDeclarativeSentence (cleanSummaryText text) maxLen)"

text \<open>The chain of replacements that \<open>sanitizeBodyForAPI\<close> and \<open>localGenerateSummary\<close>
  both write out.\<close>
definition stripMarkdown :: "jstring \<Rightarrow> jstring" where
  "stripMarkdown body =
     trim (replaceRuns2 isSpace [SPACE]
       (replaceAll mNewlines None
         (replaceAll mTag None
           (replaceAll mNumbered None
             (replaceAll mBullet None
               (replaceAll mQuote None
                 (replaceAll mHeading None
                   (replaceAll mLink None
                     (replaceAll mImage None
                       (replaceAll mInlineCode None
                         (replaceAll mFence None body)))))))))))"

definition sanitizeBodyForAPI :: "jstring \<Rightarrow> jstring" where
  "sanitizeBodyForAPI body = (if body = [] then [] else stripMarkdown body)"

text \<open>The placeholder sentence of the source, twelve CJK characters ending in U+3002.\<close>
definition placeholderSentence :: jstring where
  "placeholderSentence =
     [0x672C, 0x6587, 0x4ECB, 0x7ECD, 0x76F8, 0x5173, 0x4E3B, 0x9898, 0x4E0E, 0x6B65, 0x9AA4, 0x3002]"

definition localGenerateSummary :: "jstring \<Rightarrow> jstring \<Rightarrow> int \<Rightarrow> jstring" where
  "localGenerateSummary title body maxLen =
     (let clean = stripMarkdown body
      in if clean = []
         then toDeclarativeSentence (if title \<noteq> [] then title else placeholderSentence) maxLen
         else toDeclarativeSentence clean maxLen)"

section \<open>The code-likeness score\<close>

definition mInlineCode1 :: matcher where  \<comment> \<open>backtick, \<open>[^`]+\<close>, backtick\<close>
  "mInlineCode1 prev s =
     (let inner = takeWhile (\<lambda>x. x \<noteq> BACKTICK) (drop 1 s)
      in if startsWith s [BACKTICK] \<and> inner \<noteq> [] \<and> drop (1 + length inner) s \<noteq> []
         then Some (1 + length inner + 1, [])
         else None)"

definition codeKeywords :: "jstring list" where
  "codeKeywords = [asc ''import'', asc ''export'', asc ''const'', asc ''let'', asc ''var'',
     asc ''function'', asc ''interface'', asc ''class'', asc ''return'', asc ''new'']"

text \<open>\<open>\b(import|...|new)\b\<close>: a keyword starts and ends with a word character, so the
  first \<open>\b\<close> asks for no word character before it, the second for none behind it.\<close>
definition keywordAt :: "jstring \<Rightarrow> jstring \<Rightarrow> bool" where
  "keywordAt s kw \<longleftrightarrow>
     startsWith s kw \<and> (case drop (length kw) s of [] \<Rightarrow> True | d # ds \<Rightarrow> \<not> isWord d)"

definition mKeyword :: matcher where
  "mKeyword prev s =
     (if (case prev of None \<Rightarrow> True | Some c \<Rightarrow> \<not> isWord c)
      then map_option (\<lambda>kw. (length kw, [])) (find (keywordAt s) codeKeywords)
      else None)"

definition mArrow :: matcher where  \<comment> \<open>\<open>\w+\s*=>\<close>\<close>
  "mArrow prev s =
     (let w = takeWhile isWord s;
          ws = takeWhile isSpace (drop (length w) s)
      in if w \<noteq> [] \<and> startsWith (drop (length w + length ws) s) (asc ''=>'')
         then Some (length w + length ws + 2, [])
         else None)"

definition mDotted :: matcher where  \<comment> \<open>\<open>\w+\.\w+\<close>\<close>
  "mDotted prev s =
     (let w = takeWhile isWord s;
          r = drop (length w) s;
          w2 = takeWhile isWord (drop 1 r)
      in if w \<noteq> [] \<and> startsWith r (asc ''.'') \<and> w2 \<noteq> []
         then Some (length w + 1 + length w2, [])
         else None)"

definition clsStructural :: "jchar \<Rightarrow> bool" where  \<comment> \<open>\<open>[{}();\[\]]\<close>\<close>
  "clsStructural c \<longleftrightarrow> c \<in> set (asc ''{}();[]'')"

text \<open>The score that \<open>looksLikeCode\<close> adds up, and its threshold.\<close>
definition codeScore :: "jstring \<Rightarrow> nat" where
  "codeScore text =
     (if regexTest mFence None text then 2 else 0) +
     (if regexTest mInlineCode1 None text then 1 else 0) +
     (if regexTest mKeyword None text then 2 else 0) +
     (if regexTest mArrow None text then 1 else 0) +
     (if regexTest mDotted None text then 1 else 0) +
     (if length (filter clsStructural text) \<ge> 3 then 1 else 0)"

definition looksLikeCode :: "jstring \<Rightarrow> bool" where
  "looksLikeCode text \<longleftrightarrow> text \<noteq> [] \<and> codeScore text \<ge> 2"

section \<open>Front matter\<close>

text \<open>\<open>s.split('\n')\<close> and \<open>s.split(/\r?\n/)\<close>: the pieces between the separators, the
  current piece being accumulated as a scanning loop does.\<close>
fun splitLinesAcc :: "jstring \<Rightarrow> jstring \<Rightarrow> jstring list" where
  "splitLinesAcc piece [] = [piece]"
| "splitLinesAcc piece (c # cs) =
     (if c = LF then piece # splitLinesAcc [] cs else splitLinesAcc (piece @ [c]) cs)"

definition splitLF :: "jstring \<Rightarrow> jstring list" where
  "splitLF s = splitLinesAcc [] s"

fun splitNewlinesAcc :: "jstring \<Rightarrow> jstring \<Rightarrow> jstring list" where
  "splitNewlinesAcc piece [] = [piece]"
| "splitNewlinesAcc piece [c] = (if c = LF then [piece, []] else [piece @ [c]])"
| "splitNewlinesAcc piece (c # d # cs) =
     (if c = CR \<and> d = LF then piece # splitNewlinesAcc [] cs
      else if c = LF then piece # splitNewlinesAcc [] (d # cs)
      else splitNewlinesAcc (piece @ [c]) (d # cs))"

definition splitNewlines :: "jstring \<Rightarrow> jstring list" where
  "splitNewlines s = splitNewlinesAcc [] s"

text \<open>\<open>lines.findIndex((l, i) => i > 0 && l.trim() === '---')\<close>, \<open>None\<close> for \<open>-1\<close>.\<close>
fun findIndexFrom :: "(jstring \<Rightarrow> bool) \<Rightarrow> nat \<Rightarrow> jstring list \<Rightarrow> nat option" where
  "findIndexFrom P i [] = None"
| "findIndexFrom P i (l # ls) = (if P l then Some i else findIndexFrom P (Suc i) ls)"

definition isDelimiter :: "jstring \<Rightarrow> bool" where
  "isDelimiter l \<longleftrightarrow> trim l = asc ''---''"

definition closingIndex :: "jstring list \<Rightarrow> nat option" where
  "closingIndex lines = findIndexFrom isDelimiter 1 (drop 1 lines)"

text \<open>Matching with the \<open>i\<close> flag and no \<open>u\<close> flag compares the upper-case forms, and a
  character outside ASCII is never taken for an ASCII one: only the two cases of an
  ASCII letter match each other.\<close>
definition upperAscii :: "jchar \<Rightarrow> jchar" where
  "upperAscii c = (if 0x61 \<le> c \<and> c \<le> 0x7A then c - 0x20 else c)"

definition startsWithCI :: "jstring \<Rightarrow> jstring \<Rightarrow> bool" where
  "startsWithCI s p \<longleftrightarrow> map upperAscii (take (length p) s) = map upperAscii p"

text \<open>The tests on one line. \<open>\s*\<close> is followed by a character that is no white space
  each time, so it takes the whole run.\<close>
definition isSummaryLine :: "jstring \<Rightarrow> bool" where  \<comment> \<open>\<open>/^\s*summary\s*:/i\<close>\<close>
  "isSummaryLine l \<longleftrightarrow>
     (let u = dropWhile isSpace l
      in startsWithCI u (asc ''summary'') \<and> startsWith (dropWhile isSpace (drop 7 u)) [COLON])"

definition isFenceLine :: "jstring \<Rightarrow> bool" where  \<comment> \<open>\<open>^\s*\<close> and three backticks\<close>
  "isFenceLine l \<longleftrightarrow> startsWith (dropWhile isSpace l) FENCE"

definition isKeyStart :: "jchar \<Rightarrow> bool" where  \<comment> \<open>\<open>[A-Za-z_]\<close>\<close>
  "isKeyStart c \<longleftrightarrow> (0x41 \<le> c \<and> c \<le> 0x5A) \<or> (0x61 \<le> c \<and> c \<le> 0x7A) \<or> c = 0x5F"

definition isKeyChar :: "jchar \<Rightarrow> bool" where  \<comment> \<open>\<open>[\w-]\<close>\<close>
  "isKeyChar c \<longleftrightarrow> isWord c \<or> c = 0x2D"

definition isYamlKey :: "jstring \<Rightarrow> bool" where  \<comment> \<open>\<open>/^\s*[A-Za-z_][\w-]*\s*:/\<close>\<close>
  "isYamlKey l \<longleftrightarrow>
     (case dropWhile isSpace l of
        [] \<Rightarrow> False
      | c # t \<Rightarrow> isKeyStart c \<and> startsWith (dropWhile isSpace (dropWhile isKeyChar t)) [COLON])"

text \<open>\<open>/^\s*-\s+.+/\<close>: behind the dash \<open>\s+\<close> takes at least one character of the run of
  white space and \<open>.+\<close> needs one character that is no line terminator right behind what
  \<open>\s+\<close> took: the first character behind the run, or a later character of the run.\<close>
definition isYamlListItem :: "jstring \<Rightarrow> bool" where
  "isYamlListItem l \<longleftrightarrow>
     (case dropWhile isSpace l of
        [] \<Rightarrow> False
      | c # t \<Rightarrow>
          (let ws = takeWhile isSpace t
           in c = 0x2D \<and> ws \<noteq> [] \<and>
              (drop (length ws) t \<noteq> [] \<or> list_ex (\<lambda>x. \<not> isLineTerminator x) (drop 1 ws))))"

definition isYamlComment :: "jstring \<Rightarrow> bool" where  \<comment> \<open>\<open>/^\s*#/\<close>\<close>
  "isYamlComment l \<longleftrightarrow> startsWith (dropWhile isSpace l) (asc ''#'')"

definition isEmptyLine :: "jstring \<Rightarrow> bool" where  \<comment> \<open>\<open>/^\s*$/\<close>\<close>
  "isEmptyLine l \<longleftrightarrow> dropWhile isSpace l = []"

text \<open>The filter of \<open>upsertSummaryInFrontmatter\<close>.\<close>
definition keepLine :: "jstring \<Rightarrow> bool" where
  "keepLine l \<longleftrightarrow>
     (if isSummaryLine l then False
      else if isFenceLine l then False
      else isYamlKey l \<or> isYamlListItem l \<or> isYamlComment l \<or> isEmptyLine l)"

text \<open>\<open>escapeYaml\<close>: every double quote gets a backslash before it, and the text is put
  between double quotes.\<close>
definition escapeYaml :: "jstring \<Rightarrow> jstring" where
  "escapeYaml text =
     [DQUOTE] @ concat (map (\<lambda>c. if c = DQUOTE then [BACKSLASH, DQUOTE] else [c]) text) @ [DQUOTE]"

definition summaryLine :: "jstring \<Rightarrow> jstring" where
  "summaryLine summary = asc ''summary: '' @ escapeYaml summary"

definition withFinalNewline :: "jstring \<Rightarrow> jstring" where
  \<comment> \<open>\<open>fmStr.endsWith('\n') ? fmStr : fmStr + '\n'\<close>\<close>
  "withFinalNewline fmStr = (if endsWith fmStr LF then fmStr else fmStr @ [LF])"

text \<open>The lines between the opening delimiter and the closing one (all the lines behind
  the first one when no line closes the block) that pass the filter: \<open>bodyLines\<close> in the
  source.\<close>
definition bodyLines :: "jstring \<Rightarrow> jstring list" where
  "bodyLines frontmatter =
     (let lines = splitLF frontmatter;
          endIdx = (case closingIndex lines of None \<Rightarrow> length lines | Some i \<Rightarrow> i)
      in filter keepLine (drop 1 (take endIdx lines)))"

definition upsertSummaryInFrontmatter :: "jstring \<Rightarrow> jstring \<Rightarrow> jstring" where
  "upsertSummaryInFrontmatter frontmatter summary =
     (if frontmatter = []
      then asc ''---'' @ [LF] @ summaryLine summary @ [LF] @ asc ''---'' @ [LF]
      else
        let rebuilt = [asc ''---''] @ bodyLines frontmatter @ [summaryLine summary, asc ''---'']
        in withFinalNewline (join [LF] rebuilt))"

text \<open>\<open>hasSummaryInFrontmatter\<close>: \<open>/(^|\n)\s*summary\s*:/i\<close>, with no \<open>m\<close> flag.\<close>
definition mSummaryKey :: matcher where
  "mSummaryKey prev s =
     (if (prev = None \<and> isSummaryLine s) \<or> (startsWith s [LF] \<and> isSummaryLine (drop 1 s))
      then Some (1, []) else None)"

definition hasSummaryInFrontmatter :: "jstring \<Rightarrow> bool" where
  "hasSummaryInFrontmatter frontmatter \<longleftrightarrow> frontmatter \<noteq> [] \<and> regexTest mSummaryKey None frontmatter"

text \<open>\<open>mergeFrontmatterBlocks\<close>.\<close>
definition innerLines :: "jstring \<Rightarrow> jstring list" where
  "innerLines fm =
     (let lines = splitNewlines fm
      in case closingIndex lines of
           None \<Rightarrow> drop 1 lines
         | Some endIdx \<Rightarrow> drop 1 (take endIdx lines))"

definition mergeFrontmatterBlocks :: "jstring \<Rightarrow> jstring \<Rightarrow> jstring" where
  "mergeFrontmatterBlocks fm1 fm2 =
     (let cleaned1 = filter (\<lambda>l. \<not> isSummaryLine l) (innerLines fm1);
          cleaned2 = filter (\<lambda>l. \<not> isSummaryLine l) (innerLines fm2);
          combined = [asc ''---''] @ cleaned1 @ cleaned2 @ [asc ''---'']
      in withFinalNewline (join [LF] combined))"

text \<open>The expression \<open>/^---\r?\n[\s\S]*?\r?\n---(?=\r?\n|$)/\<close> of \<open>splitFrontmatterAndBody\<close>
  and \<open>extractBodyOnly\<close>, with no flag: it matches at the start of the string only. The
  lazy \<open>[\s\S]*?\<close> stops at the first position where the closing part matches.\<close>
definition fmOpen :: "jstring \<Rightarrow> nat option" where  \<comment> \<open>\<open>^---\r?\n\<close>\<close>
  "fmOpen s =
     (if startsWith s (asc ''---'' @ [CR, LF]) then Some 5
      else if startsWith s (asc ''---'' @ [LF]) then Some 4
      else None)"

definition fmLookahead :: "jstring \<Rightarrow> bool" where  \<comment> \<open>\<open>(?=\r?\n|$)\<close>\<close>
  "fmLookahead s \<longleftrightarrow> startsWith s [CR, LF] \<or> startsWith s [LF] \<or> s = []"

definition fmCloseAt :: "jstring \<Rightarrow> nat option" where  \<comment> \<open>\<open>\r?\n---(?=\r?\n|$)\<close>\<close>
  "fmCloseAt s =
     (if startsWith s ([CR, LF] @ asc ''---'') \<and> fmLookahead (drop 5 s) then Some 5
      else if startsWith s ([LF] @ asc ''---'') \<and> fmLookahead (drop 4 s) then Some 4
      else None)"

fun fmLazyClose :: "jstring \<Rightarrow> nat option" where
  "fmLazyClose [] = None"
| "fmLazyClose (c # cs) =
     (case fmCloseAt (c # cs) of
        Some n \<Rightarrow> Some n
      | None \<Rightarrow> map_option Suc (fmLazyClose cs))"

text \<open>The length of the match of the whole expression, if it matches.\<close>
definition frontmatterMatch :: "jstring \<Rightarrow> nat option" where
  "frontmatterMatch s =
     (case fmOpen s of
        None \<Rightarrow> None
      | Some a \<Rightarrow> map_option (\<lambda>k. a + k) (fmLazyClose (drop a s)))"

definition stripBOM :: "jstring \<Rightarrow> jstring" where  \<comment> \<open>\<open>.replace(/^\uFEFF?/, '')\<close>\<close>
  "stripBOM s = (if startsWith s [0xFEFF] then drop 1 s else s)"

definition stripGap :: "jstring \<Rightarrow> jstring" where  \<comment> \<open>\<open>.replace(/^\r?\n*/, '')\<close>\<close>
  "stripGap s = dropWhile (\<lambda>c. c = LF) (if startsWith s [CR] then drop 1 s else s)"

record split_result =
  sr_frontmatter :: jstring
  sr_body :: jstring

definition splitFrontmatterAndBody :: "jstring \<Rightarrow> split_result" where
  "splitFrontmatterAndBody content0 =
     (let content = trimStart (stripBOM content0)
      in case frontmatterMatch content of
           None \<Rightarrow> \<lparr>sr_frontmatter = [], sr_body = content\<rparr>
         | Some n \<Rightarrow>
             (let fm = take n content;
                  tail = drop n content
              in case frontmatterMatch tail of
                   Some n2 \<Rightarrow>
                     \<lparr>sr_frontmatter = mergeFrontmatterBlocks fm (take n2 tail),
                      sr_body = stripGap (drop n2 tail)\<rparr>
                 | None \<Rightarrow> \<lparr>sr_frontmatter = fm, sr_body = stripGap tail\<rparr>))"

definition extractBodyOnly :: "jstring \<Rightarrow> jstring" where
  "extractBodyOnly content0 =
     (let s = trimStart (stripBOM content0)
      in case frontmatterMatch s of
           None \<Rightarrow> s
         | Some n \<Rightarrow>
             (let tail = drop n s
              in case frontmatterMatch tail of
                   Some n2 \<Rightarrow> stripGap (drop n2 tail)
                 | None \<Rightarrow> stripGap tail))"

section \<open>Title, body limit and the request to the summary endpoint\<close>

text \<open>
  \<open>readTitleFromFrontmatter\<close>: \<open>/\ntitle:\s*['"]?([^'"]+)['"]?\s*\n/\<close>. Here the engine
  does backtrack: \<open>[^'"]+\<close> also matches white space and line feeds. The functions below
  try the candidates in the order of the engine: the longest \<open>\s*\<close> first, then the
  longest capture, and for each one the closing part \<open>['"]?\s*\n\<close>, which matches when
  the run of white space behind the optional quote holds a line feed.
\<close>

definition isQuote :: "jchar \<Rightarrow> bool" where  \<comment> \<open>\<open>['"]\<close>\<close>
  "isQuote c \<longleftrightarrow> c = 0x27 \<or> c = DQUOTE"

definition skipQuote :: "jstring \<Rightarrow> jstring" where  \<comment> \<open>\<open>['"]?\<close>\<close>
  "skipQuote s = (case s of [] \<Rightarrow> [] | c # cs \<Rightarrow> if isQuote c then cs else c # cs)"

definition titleTailOK :: "jstring \<Rightarrow> bool" where  \<comment> \<open>\<open>['"]?\s*\n\<close>\<close>
  "titleTailOK s \<longleftrightarrow> LF \<in> set (takeWhile isSpace (skipQuote s))"

text \<open>The length of the capture \<open>[^'"]+\<close> that starts at the head of the string: the
  longest one behind which the closing part matches.\<close>
fun titleCaptureLen :: "jstring \<Rightarrow> nat option" where
  "titleCaptureLen [] = None"
| "titleCaptureLen (c # cs) =
     (if isQuote c then None
      else case titleCaptureLen cs of
             Some n \<Rightarrow> Some (Suc n)
           | None \<Rightarrow> if titleTailOK cs then Some 1 else None)"

definition titleCaptureFrom :: "jstring \<Rightarrow> jstring option" where
  "titleCaptureFrom s = map_option (\<lambda>n. take n (skipQuote s)) (titleCaptureLen (skipQuote s))"

text \<open>\<open>\s*\<close> in front of the capture: the longer run is tried first.\<close>
fun titleAfterKey :: "jstring \<Rightarrow> jstring option" where
  "titleAfterKey [] = titleCaptureFrom []"
| "titleAfterKey (c # cs) =
     (if isSpace c
      then (case titleAfterKey cs of Some r \<Rightarrow> Some r | None \<Rightarrow> titleCaptureFrom (c # cs))
      else titleCaptureFrom (c # cs))"

fun titleSearch :: "jstring \<Rightarrow> jstring option" where
  "titleSearch [] = None"
| "titleSearch (c # cs) =
     (if startsWith (c # cs) ([LF] @ asc ''title:'')
      then (case titleAfterKey (drop 7 (c # cs)) of Some r \<Rightarrow> Some r | None \<Rightarrow> titleSearch cs)
      else titleSearch cs)"

definition readTitleFromFrontmatter :: "jstring \<Rightarrow> jstring" where
  "readTitleFromFrontmatter fm = (case titleSearch fm of Some m1 \<Rightarrow> trim m1 | None \<Rightarrow> [])"

text \<open>\<open>limitBody\<close>; the limit is an integer (the word limit of the configuration).\<close>
definition limitBody :: "jstring \<Rightarrow> int \<Rightarrow> jstring" where
  "limitBody body maxChars =
     (if maxChars \<le> 0 then body
      else if int (length body) > maxChars then take (nat maxChars) body else body)"

text \<open>A value that may be absent (\<open>null\<close>, \<open>undefined\<close>) is an option; \<open>a || b\<close> and the
  tests \<open>if (a)\<close> take the empty string for absent as well.\<close>
definition truthy :: "jstring option \<Rightarrow> bool" where
  "truthy a = (case a of None \<Rightarrow> False | Some s \<Rightarrow> s \<noteq> [])"

definition orElse :: "jstring option \<Rightarrow> jstring option \<Rightarrow> jstring option" where
  "orElse a b = (if truthy a then a else b)"

text \<open>\<open>isASCII\<close>: \<open>/^[\x00-\x7F]*$/\<close>.\<close>
definition isASCII :: "jstring \<Rightarrow> bool" where
  "isASCII str \<longleftrightarrow> list_all (\<lambda>c. c \<le> 0x7F) str"

datatype json_value = JString jstring | JNumber int

record api_request =
  url :: jstring
  headers :: "string \<rightharpoonup> jstring"
  payload :: "string \<rightharpoonup> json_value"

text \<open>What \<open>readAIConfigFromCustom()\<close> returned and what the environment holds.\<close>
record ai_settings =
  cfgApi :: "jstring option"
  cfgKey :: "jstring option"
  envApi :: "jstring option"
  envKey :: "jstring option"

text \<open>The first half of \<open>callSummaryAPI\<close>: the request that is handed to \<open>fetch\<close>, or
  \<open>None\<close> when no endpoint is configured.\<close>
definition buildRequest :: "ai_settings \<Rightarrow> jstring \<Rightarrow> jstring \<Rightarrow> int \<Rightarrow> api_request option" where
  "buildRequest st title body limit =
     (let api = orElse (cfgApi st) (envApi st);
          key = orElse (cfgKey st) (envKey st)
      in if \<not> truthy api then None
         else
           let limited = limitBody body limit;
               payload0 = [''title'' \<mapsto> JString title, ''content'' \<mapsto> JString limited,
                           ''wordLimit'' \<mapsto> JNumber limit];
               headers0 = [''Content-Type'' \<mapsto> asc ''application/json'',
                           ''Accept'' \<mapsto> asc ''application/json''];
               headers1 = (if truthy key \<and> isASCII (the key)
                           then headers0(''Authorization'' \<mapsto> asc ''Bearer '' @ the key)
                           else headers0);
               payload1 = (if truthy key \<and> \<not> isASCII (the key)
                           then payload0(''apiKey'' \<mapsto> JString (the key))
                           else payload0)
           in Some \<lparr>url = the api, headers = headers1, payload = payload1\<rparr>)"

text \<open>The answer of the endpoint: \<open>fetch\<close> throws, or there is a response with its \<open>ok\<close>
  flag; \<open>res_summary\<close> is \<open>Some s\<close> when the body is JSON whose property \<open>summary\<close> is the
  string \<open>s\<close>, and \<open>None\<close> for every other body.\<close>
datatype api_response = FetchFailed | Http (res_ok: bool) (res_summary: "jstring option")

definition callSummaryAPI ::
  "ai_settings \<Rightarrow> (api_request \<Rightarrow> api_response) \<Rightarrow> jstring \<Rightarrow> jstring \<Rightarrow> int \<Rightarrow> jstring option" where
  "callSummaryAPI st fetch title body limit =
     (case buildRequest st title body limit of
        None \<Rightarrow> None
      | Some req \<Rightarrow>
          (case fetch req of
             FetchFailed \<Rightarrow> None
           | Http ok data \<Rightarrow> if \<not> ok then None else map_option trim data))"

section \<open>Overwrite policy\<close>

datatype OverwritePolicy = Ask | Always | Never

text \<open>
  \<open>toLowerCase\<close>. The ASCII capitals go to their small letters. Two characters outside
  ASCII have a lower case with an ASCII letter in it: the Kelvin sign U+212A goes to
  \<open>k\<close>, and U+0130 to \<open>i\<close> followed by U+0307. Every other character outside ASCII goes
  to characters outside ASCII and is left as it is here: the source compares lower-cased
  strings with ASCII literals only, which cannot tell the difference.
\<close>
definition lowerChar :: "jchar \<Rightarrow> jstring" where
  "lowerChar c =
     (if 0x41 \<le> c \<and> c \<le> 0x5A then [c + 0x20]
      else if c = 0x212A then [0x6B]
      else if c = 0x130 then [0x69, 0x307]
      else [c])"

definition toLowerCase :: "jstring \<Rightarrow> jstring" where
  "toLowerCase s = concat (map lowerChar s)"

text \<open>The mapping from the lower-cased word to a policy, written out in both readers.\<close>
definition policyOfWord :: "jstring \<Rightarrow> OverwritePolicy option" where
  "policyOfWord v =
     (if v = asc ''ask'' then Some Ask
      else if v = asc ''always'' then Some Always
      else if v = asc ''never'' then Some Never
      else if v \<in> set [asc ''yes'', asc ''y'', asc ''true'', asc ''1''] then Some Always
      else if v \<in> set [asc ''no'', asc ''n'', asc ''false'', asc ''0''] then Some Never
      else None)"

text \<open>\<open>regex.exec\<close>, \<open>String.prototype.match\<close> without the \<open>g\<close> flag: the leftmost match.\<close>
fun regexExec :: "(jchar option \<Rightarrow> jstring \<Rightarrow> 'a option) \<Rightarrow> jchar option \<Rightarrow> jstring \<Rightarrow> 'a option" where
  "regexExec m prev [] = m prev []"
| "regexExec m prev (c # cs) =
     (case m prev (c # cs) of Some r \<Rightarrow> Some r | None \<Rightarrow> regexExec m (Some c) cs)"

text \<open>\<open>\s*$\<close> with the \<open>m\<close> flag: behind white space that holds no line terminator comes
  the end of the string or a line terminator.\<close>
definition lineEndOK :: "jstring \<Rightarrow> bool" where
  "lineEndOK s \<longleftrightarrow>
     (case dropWhile (\<lambda>c. isSpace c \<and> \<not> isLineTerminator c) s of
        [] \<Rightarrow> True
      | c # cs \<Rightarrow> isLineTerminator c)"

text \<open>\<open>/^\s*\/\/\s*AISUMMARY_OVERWRITE_EXISTING\s*[:=]\s*(\w+)\s*$/mi\<close>, giving the word
  captured by the group.\<close>
definition mPolicyLine :: "jchar option \<Rightarrow> jstring \<Rightarrow> jstring option" where
  "mPolicyLine prev s =
     (let u = dropWhile isSpace s;
          v = dropWhile isSpace (drop 2 u);
          w = dropWhile isSpace (drop 28 v);
          x = dropWhile isSpace (drop 1 w);
          word = takeWhile isWord x
      in if atLineStart prev \<and> startsWith u (asc ''//'') \<and>
            startsWithCI v (asc ''AISUMMARY_OVERWRITE_EXISTING'') \<and>
            (startsWith w [COLON] \<or> startsWith w (asc ''='')) \<and>
            word \<noteq> [] \<and> lineEndOK (drop (length word) x)
         then Some word else None)"

text \<open>The readers take what they read: the content of
  \<open>src/plugins/aisummary.config.js\<close> (\<open>None\<close> when the file does not exist) and the
  environment variable (\<open>None\<close> when it is not set).\<close>
definition readOverwritePolicyFromCustom :: "jstring option \<Rightarrow> OverwritePolicy option" where
  "readOverwritePolicyFromCustom configFile =
     (case configFile of
        None \<Rightarrow> None
      | Some content \<Rightarrow>
          (case regexExec mPolicyLine None content of
             None \<Rightarrow> None
           | Some m1 \<Rightarrow> policyOfWord (toLowerCase m1)))"

definition readOverwritePolicyFromEnv :: "jstring option \<Rightarrow> OverwritePolicy option" where
  "readOverwritePolicyFromEnv envValue =
     (let raw = toLowerCase (trim (case envValue of None \<Rightarrow> [] | Some v \<Rightarrow> v))
      in if raw = [] then None else policyOfWord raw)"

definition getOverwritePolicy :: "jstring option \<Rightarrow> jstring option \<Rightarrow> bool \<Rightarrow> OverwritePolicy" where
  "getOverwritePolicy configFile envValue isInteractive =
     (case readOverwritePolicyFromCustom configFile of
        Some c \<Rightarrow> c
      | None \<Rightarrow>
          (case readOverwritePolicyFromEnv envValue of
             Some e \<Rightarrow> e
           | None \<Rightarrow> if isInteractive then Ask else Never))"

text \<open>The policy as \<open>run\<close> computes it: \<open>isInteractive\<close> is
  \<open>!!process.stdin.isTTY && !!process.stdout.isTTY\<close>.\<close>
definition runOverwritePolicy :: "jstring option \<Rightarrow> jstring option \<Rightarrow> bool \<Rightarrow> bool \<Rightarrow> OverwritePolicy" where
  "runOverwritePolicy configFile envValue stdinIsTTY stdoutIsTTY =
     getOverwritePolicy configFile envValue (stdinIsTTY \<and> stdoutIsTTY)"

text \<open>\<open>promptYesNo\<close>, as a function of the line the user typed.\<close>
definition promptYesNo :: "jstring \<Rightarrow> bool \<Rightarrow> bool" where
  "promptYesNo ans defaultYes =
     (let v = toLowerCase (trim ans)
      in if v = [] then defaultYes else v = asc ''y'' \<or> v = asc ''yes'')"

section \<open>Processing one document\<close>

text \<open>
  The summary that \<open>processOne\<close> writes, from what \<open>callSummaryAPI\<close> returned
  (\<open>apiSummary\<close>): the sanitized answer of the endpoint unless it is empty or looks like
  code, the local summary otherwise; either one goes through the canonicalizer once more.
\<close>

datatype summary_source = FromAPI | FromLocal

definition summarySource :: "jstring option \<Rightarrow> summary_source" where
  "summarySource apiSummary =
     (let summaryRaw = (case apiSummary of None \<Rightarrow> [] | Some s \<Rightarrow> s);
          summary = sanitizeSummaryText summaryRaw SUMMARY_MAX_LEN
      in if summary = [] \<or> looksLikeCode summary then FromLocal else FromAPI)"

definition generateSummary :: "jstring option \<Rightarrow> jstring \<Rightarrow> jstring \<Rightarrow> jstring" where
  "generateSummary apiSummary title limitedBody =
     (let summaryRaw = (case apiSummary of None \<Rightarrow> [] | Some s \<Rightarrow> s);
          summary = sanitizeSummaryText summaryRaw SUMMARY_MAX_LEN;
          summary = (if summarySource apiSummary = FromLocal
                     then localGenerateSummary title limitedBody SUMMARY_MAX_LEN
                     else summary)
      in toDeclarativeSentence summary SUMMARY_MAX_LEN)"

text \<open>
  What \<open>run\<close> fixed before the first document: the settings of the endpoint, the endpoint
  itself, the flag \<open>cleanBeforeAPI\<close> and the overwrite policy. The files are a map from
  paths to contents; \<open>readFileSync\<close> on a path that is not there throws, and the
  \<open>catch\<close> of \<open>processOne\<close> logs the error and leaves the files as they are. The log is
  not modelled, and a write always succeeds. \<open>answer\<close> is the line typed at the prompt,
  if one is shown.

  \<open>writeFileSync(file, nextContent, 'utf8')\<close> encodes the string as UTF-8: a high
  surrogate followed by a low one is one code point and is kept, and a surrogate that
  stands alone (\<open>slice\<close> can cut a pair) is written as U+FFFD. The content of a file is
  the text that \<open>readFileSync(file, 'utf8')\<close> gives back.
\<close>

definition isHighSurrogate :: "jchar \<Rightarrow> bool" where
  "isHighSurrogate c \<longleftrightarrow> 0xD800 \<le> c \<and> c \<le> 0xDBFF"

definition isLowSurrogate :: "jchar \<Rightarrow> bool" where
  "isLowSurrogate c \<longleftrightarrow> 0xDC00 \<le> c \<and> c \<le> 0xDFFF"

fun utf8Text :: "jstring \<Rightarrow> jstring" where
  "utf8Text [] = []"
| "utf8Text [c] = (if isHighSurrogate c \<or> isLowSurrogate c then [0xFFFD] else [c])"
| "utf8Text (c # d # cs) =
     (if isHighSurrogate c \<and> isLowSurrogate d then c # d # utf8Text cs
      else if isHighSurrogate c \<or> isLowSurrogate c then 0xFFFD # utf8Text (d # cs)
      else c # utf8Text (d # cs))"

record run_env =
  settings :: ai_settings
  fetch :: "api_request \<Rightarrow> api_response"
  cleanBeforeAPI :: bool
  overwritePolicy :: OverwritePolicy

record outcome =
  files :: "string \<rightharpoonup> jstring"
  prompted :: bool

definition processOne ::
  "run_env \<Rightarrow> jstring \<Rightarrow> (string \<rightharpoonup> jstring) \<Rightarrow> string \<Rightarrow> int \<Rightarrow> outcome" where
  "processOne env answer fs file limit =
     (case fs file of
        None \<Rightarrow> \<lparr>files = fs, prompted = False\<rparr>
      | Some content \<Rightarrow>
          let parts = splitFrontmatterAndBody content;
              bodyOnly = extractBodyOnly content;
              title = readTitleFromFrontmatter (sr_frontmatter parts);
              limitedBody = limitBody bodyOnly limit;
              existing = hasSummaryInFrontmatter (sr_frontmatter parts)
          in if existing \<and> overwritePolicy env = Never
             then \<lparr>files = fs, prompted = False\<rparr>
             else if existing \<and> overwritePolicy env = Ask \<and> \<not> promptYesNo answer False
             then \<lparr>files = fs, prompted = True\<rparr>
             else
               let contentForAPI = (if cleanBeforeAPI env then sanitizeBodyForAPI limitedBody
                                    else limitedBody);
                   hasCustomAPI = truthy (orElse (cfgApi (settings env)) (envApi (settings env)));
                   apiSummary = (if hasCustomAPI
                                 then callSummaryAPI (settings env) (fetch env) title contentForAPI limit
                                 else None);
                   summary = generateSummary apiSummary title limitedBody;
                   nextFrontmatter = upsertSummaryInFrontmatter (sr_frontmatter parts) summary;
                   nextContent = nextFrontmatter @ sr_body parts
               in \<lparr>files = fs(file \<mapsto> utf8Text nextContent),
                   prompted = (existing \<and> overwritePolicy env = Ask)\<rparr>)"

section \<open>Statements of the specification\<close>

text \<open>The words that the specification lists for the overwrite policy, each with the
  policy it stands for; the readers are compared with this table.\<close>
definition policyAliases :: "(jstring \<times> OverwritePolicy) list" where
  "policyAliases =
     [(asc ''ask'', Ask), (asc ''always'', Always), (asc ''never'', Never),
      (asc ''yes'', Always), (asc ''y'', Always), (asc ''true'', Always), (asc ''1'', Always),
      (asc ''no'', Never), (asc ''n'', Never), (asc ''false'', Never), (asc ''0'', Never)]"

definition sameIgnoringCase :: "jstring \<Rightarrow> jstring \<Rightarrow> bool" where
  "sameIgnoringCase w a \<longleftrightarrow> map upperAscii w = map upperAscii a"

definition isLowerOrDigit :: "jchar \<Rightarrow> bool" where
  "isLowerOrDigit c \<longleftrightarrow> (0x61 \<le> c \<and> c \<le> 0x7A) \<or> (0x30 \<le> c \<and> c \<le> 0x39)"

text \<open>The name of the key in the configuration file, and a text in which a given name
  occurs somewhere, in any mix of upper and lower case.\<close>
abbreviation POLICY_KEY :: jstring where "POLICY_KEY \<equiv> asc ''AISUMMARY_OVERWRITE_EXISTING''"

fun occursIgnoringCase :: "jstring \<Rightarrow> jstring \<Rightarrow> bool" where
  "occursIgnoringCase p [] = startsWithCI [] p"
| "occursIgnoringCase p (c # cs) = (startsWithCI (c # cs) p \<or> occursIgnoringCase p cs)"

text \<open>The round trip as the specification words it: two texts that differ in the number
  of line breaks at their end only.\<close>
definition isNewline :: "jchar \<Rightarrow> bool" where
  "isNewline c \<longleftrightarrow> c = LF \<or> c = CR"

definition sameUpToTrailingNewlines :: "jstring \<Rightarrow> jstring \<Rightarrow> bool" where
  "sameUpToTrailingNewlines a b \<longleftrightarrow> stripTrailing isNewline a = stripTrailing isNewline b"

text \<open>A document with more than one front-matter block, as the specification words it:
  two blocks back to back. Behind the first block and the line breaks that follow it,
  a block starts again.\<close>
definition hasSecondBlock :: "jstring \<Rightarrow> bool" where
  "hasSecondBlock content \<longleftrightarrow>
     (let c = trimStart (stripBOM content)
      in case frontmatterMatch c of
           None \<Rightarrow> False
         | Some n \<Rightarrow> frontmatterMatch (stripGap (drop n c)) \<noteq> None)"

section \<open>Example documents and settings\<close>

text \<open>A run with no endpoint configured; a document whose front matter has a summary; a
  document with a front matter and a body; the same behind a byte order mark and with an
  empty line before the body; a document whose title is not quoted and whose body is
  empty; an answer of the endpoint with a fenced block and a keyword, an answer that is
  two statements of a program, and a run whose endpoint returns a given answer with
  status 2xx.\<close>
definition noEndpoint :: ai_settings where
  "noEndpoint = \<lparr>cfgApi = None, cfgKey = None, envApi = None, envKey = None\<rparr>"

definition localEnv :: "OverwritePolicy \<Rightarrow> run_env" where
  "localEnv p = \<lparr>settings = noEndpoint, fetch = (\<lambda>req. FetchFailed), cleanBeforeAPI = False,
                  overwritePolicy = p\<rparr>"

definition docWithSummary :: jstring where
  "docWithSummary = asc ''---'' @ [LF] @ asc ''summary: '' @ [DQUOTE] @ asc ''x'' @ [DQUOTE, LF] @
                    asc ''---'' @ [LF] @ asc ''B''"

definition docPlain :: jstring where
  "docPlain = asc ''---'' @ [LF] @ asc ''k: v'' @ [LF] @ asc ''---'' @ [LF] @ asc ''B''"

definition docWithBOM :: jstring where
  "docWithBOM = [0xFEFF] @ asc ''---'' @ [LF] @ asc ''k: v'' @ [LF] @ asc ''---'' @ [LF, LF] @ asc ''B''"

definition docMultilineTitle :: jstring where
  "docMultilineTitle = asc ''---'' @ [LF] @ asc ''title: T'' @ [LF] @ asc ''k: v'' @ [LF] @ asc ''---'' @ [LF]"

definition codeResponse :: jstring where
  "codeResponse = asc ''```js``` a function here''"

definition codeAnswer :: jstring where
  "codeAnswer = asc ''const a = 1; return a;''"

text \<open>A configuration file: two lines, the line of the overwrite policy, a last line.\<close>
definition configText :: jstring where
  "configText =
     (asc ''// settings'' @ [LF] @ asc ''export default {}'' @ [LF]) @ [SPACE, SPACE] @ asc ''//'' @
     [SPACE] @ asc ''AiSummary_Overwrite_Existing'' @ [SPACE] @ [COLON] @ [0x09] @ asc ''YeS'' @
     [SPACE] @ ([LF] @ asc ''// end'')"

definition endpointEnv :: "jstring \<Rightarrow> run_env" where
  "endpointEnv answerText =
     \<lparr>settings = \<lparr>cfgApi = Some (asc ''https://x/api''), cfgKey = None, envApi = None, envKey = None\<rparr>,
      fetch = (\<lambda>req. Http True (Some answerText)), cleanBeforeAPI = False, overwritePolicy = Never\<rparr>"

section \<open>Verification: the canonicalizer\<close>

subsection \<open>Which characters a stage can let through\<close>

lemma set_replaceRuns:
  "c \<in> set (replaceRuns cls rep s) \<Longrightarrow> c \<in> set rep \<or> (c \<in> set s \<and> \<not> cls c)"
proof (induction cls rep s rule: replaceRuns.induct)
  case (1 cls rep)
  then show ?case by simp
next
  case (2 cls rep d ds)
  show ?case
  proof (cases "cls d")
    case True
    with 2 have "c \<in> set rep \<or> c \<in> set (replaceRuns cls rep (dropWhile cls ds))" by simp
    with 2 True have "c \<in> set rep \<or> (c \<in> set (dropWhile cls ds) \<and> \<not> cls c)" by blast
    then show ?thesis using set_dropWhileD by fastforce
  next
    case False
    with 2 show ?thesis by auto
  qed
qed

lemma set_replaceRuns2:
  "c \<in> set (replaceRuns2 cls rep s) \<Longrightarrow> c \<in> set rep \<or> c \<in> set s"
proof (induction cls rep s rule: replaceRuns2.induct)
  case (3 cls rep a b cs)
  show ?case
  proof (cases "cls a \<and> cls b")
    case True
    with 3 have "c \<in> set rep \<or> c \<in> set (replaceRuns2 cls rep (dropWhile cls cs))" by simp
    with 3 True have "c \<in> set rep \<or> c \<in> set (dropWhile cls cs)" by blast
    then show ?thesis using set_dropWhileD by fastforce
  next
    case False
    with 3 show ?thesis by auto
  qed
qed simp_all

lemma length_replaceRuns2:
  "length rep \<le> 1 \<Longrightarrow> length (replaceRuns2 cls rep s) \<le> length s"
proof (induction cls rep s rule: replaceRuns2.induct)
  case (3 cls rep a b cs)
  show ?case
  proof (cases "cls a \<and> cls b")
    case True
    have "length (dropWhile cls cs) \<le> length cs" by (rule length_dropWhile_le)
    with 3 True show ?thesis by fastforce
  next
    case False
    with 3 show ?thesis by auto
  qed
qed simp_all

lemma set_removeClass: "c \<in> set (removeClass cls s) \<longleftrightarrow> c \<in> set s \<and> \<not> cls c"
  by (simp add: removeClass_def)

lemma set_stripTrailing: "c \<in> set (stripTrailing cls s) \<Longrightarrow> c \<in> set s"
  unfolding stripTrailing_def using set_dropWhileD by fastforce

lemma length_stripTrailing: "length (stripTrailing cls s) \<le> length s"
  unfolding stripTrailing_def using length_dropWhile_le [of cls "rev s"] by simp

lemma set_trim: "c \<in> set (trim s) \<Longrightarrow> c \<in> set s"
proof -
  assume "c \<in> set (trim s)"
  then have "c \<in> set (dropWhile isSpace (rev (dropWhile isSpace s)))" by (simp add: trim_def)
  then have "c \<in> set (rev (dropWhile isSpace s))" by (rule set_dropWhileD)
  then have "c \<in> set (dropWhile isSpace s)" by simp
  then show ?thesis by (rule set_dropWhileD)
qed

lemma set_splitAcc:
  "p \<in> set (splitAcc cls piece s) \<Longrightarrow> c \<in> set p \<Longrightarrow> c \<in> set piece \<or> c \<in> set s"
proof (induction cls piece s rule: splitAcc.induct)
  case (1 cls piece)
  then show ?case by simp
next
  case (2 cls piece d ds)
  show ?case
  proof (cases "cls d")
    case True
    with 2 show ?thesis using set_dropWhileD by fastforce
  next
    case False
    with 2 show ?thesis by auto
  qed
qed

lemma set_join:
  "c \<in> set (join sep ps) \<Longrightarrow> c \<in> set sep \<or> (\<exists>p \<in> set ps. c \<in> set p)"
  by (induction sep ps rule: join.induct) auto

lemma set_unifyPunctuation:
  assumes "c \<in> set (unifyPunctuation s)"
  shows "c = CJK_STOP \<or> c = CJK_EXCL \<or> c = CJK_COMMA \<or> c = CJK_COLON \<or> c = CJK_SEMI \<or>
         (c \<in> set s \<and> \<not> clsStop c \<and> \<not> clsExcl c \<and> \<not> clsComma c \<and> \<not> clsColon c \<and> \<not> clsSemi c)"
  using assms unfolding unifyPunctuation_def
  by (fastforce dest!: set_replaceRuns)

lemma set_removeSymbols:
  "c \<in> set (removeSymbols s) \<longleftrightarrow> c \<in> set s \<and> \<not> clsSymbol c \<and> \<not> clsBracket c \<and> \<not> clsSlash c"
  by (auto simp: removeSymbols_def set_removeClass)

lemma set_mergeClauses:
  assumes "c \<in> set (mergeClauses s)"
  shows "c = CJK_COMMA \<or> c = SPACE \<or> c \<in> set s"
proof -
  let ?parts = "filter (\<lambda>t. t \<noteq> []) (map trim (splitRuns clsSentenceEnd s))"
  from assms have "c \<in> set (replaceRuns2 (\<lambda>c. c = CJK_COMMA) [CJK_COMMA]
                 (replaceRuns2 isSpace [SPACE] (join [CJK_COMMA] ?parts)))"
    unfolding mergeClauses_def Let_def by (rule set_trim)
  then have "c = CJK_COMMA \<or> c \<in> set (replaceRuns2 isSpace [SPACE] (join [CJK_COMMA] ?parts))"
    by (auto dest: set_replaceRuns2)
  then have "c = CJK_COMMA \<or> c = SPACE \<or> c \<in> set (join [CJK_COMMA] ?parts)"
    by (auto dest: set_replaceRuns2)
  then have "c = CJK_COMMA \<or> c = SPACE \<or> (\<exists>p \<in> set ?parts. c \<in> set p)"
    using set_join [of c "[CJK_COMMA]" ?parts] by fastforce
  moreover have "c \<in> set s" if "p \<in> set ?parts" "c \<in> set p" for p
  proof -
    from that obtain q where q: "q \<in> set (splitAcc clsSentenceEnd [] s)" and p: "p = trim q"
      by (auto simp: splitRuns_def)
    from that p have "c \<in> set q" by (auto dest: set_trim)
    with q show ?thesis by (auto dest: set_splitAcc)
  qed
  ultimately show ?thesis by blast
qed

lemma length_mergedCore:
  "length (if int (length merged) > coreMax
           then stripTrailing cls (take (nat coreMax) merged)
           else stripTrailing cls merged) \<le> nat coreMax"
proof (cases "int (length merged) > coreMax")
  case True
  have "length (stripTrailing cls (take (nat coreMax) merged)) \<le> length (take (nat coreMax) merged)"
    by (rule length_stripTrailing)
  with True show ?thesis by simp
next
  case False
  have "length (stripTrailing cls merged) \<le> length merged" by (rule length_stripTrailing)
  with False show ?thesis by simp
qed

lemma toDeclarativeSentence_length_le:
  "int (length (toDeclarativeSentence text maxLen)) \<le> max 1 (maxLen - 1) + 1"
proof -
  define merged where "merged = mergeClauses (removeSymbols (unifyPunctuation text))"
  define core where "core = (if int (length merged) > max 1 (maxLen - 1)
           then stripTrailing clsTrailing (take (nat (max 1 (maxLen - 1))) merged)
           else stripTrailing clsTrailing merged)"
  have "length core \<le> nat (max 1 (maxLen - 1))" unfolding core_def by (rule length_mergedCore)
  moreover have "toDeclarativeSentence text maxLen = (if endsWith core CJK_STOP then core else core @ [CJK_STOP])"
    by (simp add: toDeclarativeSentence_def Let_def core_def merged_def)
  ultimately show ?thesis by auto
qed

lemma toDeclarativeSentence_endsWith:
  "endsWith (toDeclarativeSentence text maxLen) CJK_STOP"
  by (simp add: toDeclarativeSentence_def Let_def endsWith_def)

lemma set_toDeclarativeSentence:
  assumes "c \<in> set (toDeclarativeSentence text maxLen)"
  shows "c = CJK_STOP \<or> c = CJK_EXCL \<or> c = CJK_COMMA \<or> c = CJK_COLON \<or> c = CJK_SEMI \<or> c = SPACE \<or>
         (c \<in> set text \<and> \<not> clsStop c \<and> \<not> clsExcl c \<and> \<not> clsComma c \<and> \<not> clsColon c \<and> \<not> clsSemi c \<and>
          \<not> clsSymbol c \<and> \<not> clsBracket c \<and> \<not> clsSlash c)"
proof -
  define merged where "merged = mergeClauses (removeSymbols (unifyPunctuation text))"
  define core where "core = (if int (length merged) > max 1 (maxLen - 1)
           then stripTrailing clsTrailing (take (nat (max 1 (maxLen - 1))) merged)
           else stripTrailing clsTrailing merged)"
  have out: "toDeclarativeSentence text maxLen = (if endsWith core CJK_STOP then core else core @ [CJK_STOP])"
    by (simp add: toDeclarativeSentence_def Let_def core_def merged_def)
  have "d \<in> set merged" if "d \<in> set core" for d
    using that unfolding core_def by (auto dest: set_stripTrailing in_set_takeD split: if_splits)
  with assms out have "c = CJK_STOP \<or> c \<in> set merged" by (auto split: if_splits)
  then have "c = CJK_STOP \<or> c = CJK_COMMA \<or> c = SPACE \<or> c \<in> set (removeSymbols (unifyPunctuation text))"
    unfolding merged_def by (auto dest: set_mergeClauses)
  then show ?thesis
    by (auto simp: set_removeSymbols dest: set_unifyPunctuation)
qed

lemmas class_defs = clsStop_def clsExcl_def clsComma_def clsColon_def clsSemi_def clsSymbol_def
  clsBracket_def clsSlash_def clsSentenceEnd_def clsTrailing_def isSpace_def

lemmas canon_defs = toDeclarativeSentence_def removeSymbols_def unifyPunctuation_def
  mergeClauses_def removeClass_def stripTrailing_def endsWith_def trim_def splitRuns_def

lemma escapeYaml_plain: "DQUOTE \<notin> set s \<Longrightarrow> escapeYaml s = [DQUOTE] @ s @ [DQUOTE]"
proof -
  assume "DQUOTE \<notin> set s"
  then have "concat (map (\<lambda>c. if c = DQUOTE then [BACKSLASH, DQUOTE] else [c]) s) = s"
    by (induction s) auto
  then show ?thesis by (simp add: escapeYaml_def)
qed

lemma sanitizeSummaryText_cases:
  "sanitizeSummaryText text maxLen = [] \<or>
   (\<exists>s. sanitizeSummaryText text maxLen = toDeclarativeSentence s maxLen)"
  unfolding sanitizeSummaryText_def Let_def by auto

lemma generateSummary_canonical:
  "\<exists>s. generateSummary apiSummary title limitedBody = toDeclarativeSentence s SUMMARY_MAX_LEN"
  unfolding generateSummary_def Let_def by blast

subsection \<open>Length and terminal mark\<close>

text \<open>
  C1 (as amended). For every input string and every \<open>maxLen\<close> of at least 2, the result
  of \<open>toDeclarativeSentence\<close> has at most \<open>maxLen\<close> code units and ends with the
  ideographic full stop; the same bound holds for \<open>sanitizeSummaryText\<close>, whose result
  is empty or ends with that mark.
\<close>
theorem toDeclarativeSentence_bounded:
  assumes "2 \<le> maxLen"
  shows "int (length (toDeclarativeSentence text maxLen)) \<le> maxLen \<and>
         endsWith (toDeclarativeSentence text maxLen) CJK_STOP \<and>
         int (length (sanitizeSummaryText text maxLen)) \<le> maxLen \<and>
         (sanitizeSummaryText text maxLen = [] \<or> endsWith (sanitizeSummaryText text maxLen) CJK_STOP)"
proof -
  have bound: "int (length (toDeclarativeSentence s maxLen)) \<le> maxLen" for s
    using toDeclarativeSentence_length_le [of s maxLen] assms by simp
  have "int (length (sanitizeSummaryText text maxLen)) \<le> maxLen"
    using sanitizeSummaryText_cases [of "text" maxLen] bound assms by auto
  moreover have "sanitizeSummaryText text maxLen = [] \<or> endsWith (sanitizeSummaryText text maxLen) CJK_STOP"
    using sanitizeSummaryText_cases [of "text" maxLen] toDeclarativeSentence_endsWith by auto
  ultimately show ?thesis using bound toDeclarativeSentence_endsWith by blast
qed

theorem toDeclarativeSentence_bounded_witness:
  "toDeclarativeSentence (asc ''abcdef'') 3 = asc ''ab'' @ [CJK_STOP] \<and>
   int (length (toDeclarativeSentence (asc ''abcdef'') 3)) \<le> 3 \<and>
   endsWith (toDeclarativeSentence (asc ''abcdef'') 3) CJK_STOP"
proof -
  have h: "(2::int) \<le> 3" by simp
  have "toDeclarativeSentence (asc ''abcdef'') 3 = asc ''ab'' @ [CJK_STOP]"
    by (simp add: canon_defs class_defs)
  then show ?thesis using toDeclarativeSentence_bounded [OF h, of "asc ''abcdef''"] by simp
qed

text \<open>With \<open>maxLen = 1\<close> the guard \<open>Math.max(1, maxLen - 1)\<close> keeps one character of
  the text, and the mark makes two.\<close>
theorem toDeclarativeSentence_maxLen_1_counterexample:
  "toDeclarativeSentence (asc ''a'') 1 = asc ''a'' @ [CJK_STOP] \<and>
   \<not> int (length (toDeclarativeSentence (asc ''a'') 1)) \<le> 1"
  by (simp add: canon_defs class_defs)

subsection \<open>Punctuation classes\<close>

text \<open>
  C8. The claim has the ASCII semicolon mapped to the fullwidth semicolon. The first
  replacement of the chain, \<open>[\.;]{1,}\<close>, takes it together with the full stop, so the
  text \<open>a;b\<close> comes out of the punctuation stage as \<open>a\<close>, U+3002, \<open>b\<close> and out of the
  canonicalizer as two clauses joined by a comma; the later replacement of the
  semicolons never sees an ASCII semicolon.
\<close>
theorem semicolon_becomes_full_stop:
  "unifyPunctuation (asc ''a;b'') = asc ''a'' @ [CJK_STOP] @ asc ''b'' \<and>
   unifyPunctuation (asc ''a;b'') \<noteq> asc ''a'' @ [CJK_SEMI] @ asc ''b'' \<and>
   toDeclarativeSentence (asc ''a;b'') SUMMARY_MAX_LEN = asc ''a'' @ [CJK_COMMA] @ asc ''b'' @ [CJK_STOP]"
  by (simp add: canon_defs class_defs)

section \<open>Verification: the summary in the front matter\<close>

subsection \<open>Splitting into lines and joining\<close>

lemma splitLinesAcc_piece:
  "splitLinesAcc piece s = (piece @ hd (splitLinesAcc [] s)) # tl (splitLinesAcc [] s)"
proof (induction s arbitrary: piece)
  case Nil
  then show ?case by simp
next
  case (Cons c cs)
  show ?case
  proof (cases "c = LF")
    case True
    then show ?thesis by simp
  next
    case False
    have "splitLinesAcc piece (c # cs) = splitLinesAcc (piece @ [c]) cs" using False by simp
    also have "\<dots> = ((piece @ [c]) @ hd (splitLinesAcc [] cs)) # tl (splitLinesAcc [] cs)"
      by (rule Cons.IH)
    also have "splitLinesAcc [] (c # cs) = splitLinesAcc [c] cs" using False by simp
    then have "((piece @ [c]) @ hd (splitLinesAcc [] cs)) # tl (splitLinesAcc [] cs) =
               (piece @ hd (splitLinesAcc [] (c # cs))) # tl (splitLinesAcc [] (c # cs))"
      using Cons.IH [of "[c]"] by simp
    finally show ?thesis .
  qed
qed

lemma splitLF_Nil: "splitLF [] = [[]]"
  by (simp add: splitLF_def)

lemma splitLF_no_LF: "LF \<notin> set l \<Longrightarrow> splitLinesAcc piece l = [piece @ l]"
  by (induction l arbitrary: piece) auto

lemma splitLF_line: "LF \<notin> set l \<Longrightarrow> splitLF l = [l]"
  using splitLF_no_LF [of l "[]"] by (simp add: splitLF_def)

lemma splitLinesAcc_append:
  "LF \<notin> set l \<Longrightarrow> splitLinesAcc piece (l @ LF # rest) = (piece @ l) # splitLinesAcc [] rest"
  by (induction l arbitrary: piece) auto

lemma splitLF_append: "LF \<notin> set l \<Longrightarrow> splitLF (l @ LF # rest) = l # splitLF rest"
  using splitLinesAcc_append [of l "[]" rest] by (simp add: splitLF_def)

lemma splitLF_prefix:
  "LF \<notin> set p \<Longrightarrow> splitLF (p @ s) = (p @ hd (splitLF s)) # tl (splitLF s)"
proof -
  assume p: "LF \<notin> set p"
  have "splitLinesAcc q (p @ s) = splitLinesAcc (q @ p) s" for q
    using p by (induction p arbitrary: q) auto
  from this [of "[]"] show ?thesis
    using splitLinesAcc_piece [of p s] by (simp add: splitLF_def)
qed

lemma splitLinesAcc_subset:
  "l \<in> set (splitLinesAcc piece s) \<Longrightarrow> set l \<subseteq> set piece \<union> set s"
proof (induction s arbitrary: piece)
  case Nil
  then show ?case by simp
next
  case (Cons c cs)
  show ?case
  proof (cases "c = LF")
    case True
    with Cons.prems have "l = piece \<or> l \<in> set (splitLinesAcc [] cs)" by simp
    then show ?thesis using Cons.IH [of "[]"] by auto
  next
    case False
    with Cons.prems have "l \<in> set (splitLinesAcc (piece @ [c]) cs)" by simp
    then show ?thesis using Cons.IH [of "piece @ [c]"] by auto
  qed
qed

lemma splitLinesAcc_no_LF:
  "LF \<notin> set piece \<Longrightarrow> l \<in> set (splitLinesAcc piece s) \<Longrightarrow> LF \<notin> set l"
proof (induction s arbitrary: piece)
  case Nil
  then show ?case by simp
next
  case (Cons c cs)
  show ?case
  proof (cases "c = LF")
    case True
    with Cons.prems have "l = piece \<or> l \<in> set (splitLinesAcc [] cs)" by simp
    then show ?thesis using Cons.IH [of "[]"] Cons.prems(1) by auto
  next
    case False
    with Cons.prems have "l \<in> set (splitLinesAcc (piece @ [c]) cs)" by simp
    then show ?thesis using Cons.IH [of "piece @ [c]"] Cons.prems(1) False by auto
  qed
qed

lemma splitLF_pieces: "l \<in> set (splitLF s) \<Longrightarrow> set l \<subseteq> set s \<and> LF \<notin> set l"
  using splitLinesAcc_subset [of l "[]" s] splitLinesAcc_no_LF [of "[]" l s]
  by (auto simp: splitLF_def)

lemma splitLinesAcc_nonempty: "splitLinesAcc piece s \<noteq> []"
  by (induction s arbitrary: piece) auto

lemma splitLF_join:
  "ls \<noteq> [] \<Longrightarrow> \<forall>l \<in> set ls. LF \<notin> set l \<Longrightarrow> splitLF (join [LF] ls) = ls"
proof (induction "[LF]" ls rule: join.induct)
  case 1
  then show ?case by simp
next
  case (2 x)
  then show ?case by (simp add: splitLF_line)
next
  case (3 x y ys)
  then have "splitLF (x @ LF # join [LF] (y # ys)) = x # splitLF (join [LF] (y # ys))"
    by (simp add: splitLF_append)
  with 3 show ?case by simp
qed

lemma join_snoc: "ls \<noteq> [] \<Longrightarrow> join sep (ls @ [x]) = join sep ls @ sep @ x"
  by (induction sep ls rule: join.induct) auto

lemma join_Cons: "ls \<noteq> [] \<Longrightarrow> join sep (x # ls) = x @ sep @ join sep ls"
  by (cases ls) auto

subsection \<open>The shape of the rebuilt block\<close>

lemma last_join: "x \<noteq> [] \<Longrightarrow> last (join sep (ls @ [x])) = last x"
proof (cases "ls = []")
  case True
  then show ?thesis by simp
next
  case False
  assume "x \<noteq> []"
  then show ?thesis using join_snoc [OF False, of sep x] by simp
qed

lemma upsert_shape:
  "upsertSummaryInFrontmatter fm s =
   join [LF] ([asc ''---''] @ (if fm = [] then [] else bodyLines fm) @ [summaryLine s, asc ''---'', []])"
proof -
  let ?B = "if fm = [] then [] else bodyLines fm"
  let ?ls = "[asc ''---''] @ ?B @ [summaryLine s]"
  have j: "join [LF] (?ls @ [asc ''---'']) = join [LF] ?ls @ [LF] @ asc ''---''"
    by (rule join_snoc) simp
  have "last (join [LF] (?ls @ [asc ''---''])) = last (asc ''---'')"
    by (rule last_join) simp
  then have nl: "\<not> endsWith (join [LF] (?ls @ [asc ''---''])) LF"
    by (simp add: endsWith_def)
  have "join [LF] (?ls @ [asc ''---'', []]) = join [LF] ((?ls @ [asc ''---'']) @ [[]])" by simp
  also have "\<dots> = join [LF] (?ls @ [asc ''---'']) @ [LF] @ []"
    by (rule join_snoc) simp
  finally have e: "join [LF] (?ls @ [asc ''---'', []]) = join [LF] (?ls @ [asc ''---'']) @ [LF]"
    by simp
  show ?thesis
  proof (cases "fm = []")
    case True
    then show ?thesis by (simp add: upsertSummaryInFrontmatter_def)
  next
    case False
    then have "upsertSummaryInFrontmatter fm s = withFinalNewline (join [LF] (?ls @ [asc ''---'']))"
      by (simp add: upsertSummaryInFrontmatter_def Let_def)
    also have "\<dots> = join [LF] (?ls @ [asc ''---'']) @ [LF]"
      using nl by (simp add: withFinalNewline_def)
    finally show ?thesis using e by simp
  qed
qed

lemma upsert_tail:
  "\<exists>pre. upsertSummaryInFrontmatter fm s = pre @ [LF] @ summaryLine s @ [LF] @ asc ''---'' @ [LF]"
proof -
  let ?B = "if fm = [] then [] else bodyLines fm"
  have "join [LF] (([asc ''---''] @ ?B) @ [summaryLine s]) = join [LF] ([asc ''---''] @ ?B) @ [LF] @ summaryLine s"
    by (rule join_snoc) simp
  moreover have "join [LF] (([asc ''---''] @ ?B @ [summaryLine s]) @ [asc ''---'']) =
     join [LF] ([asc ''---''] @ ?B @ [summaryLine s]) @ [LF] @ asc ''---''"
    by (rule join_snoc) simp
  moreover have "join [LF] (([asc ''---''] @ ?B @ [summaryLine s, asc ''---'']) @ [[]]) =
     join [LF] ([asc ''---''] @ ?B @ [summaryLine s, asc ''---'']) @ [LF] @ []"
    by (rule join_snoc) simp
  ultimately have "upsertSummaryInFrontmatter fm s =
     join [LF] ([asc ''---''] @ ?B) @ [LF] @ summaryLine s @ [LF] @ asc ''---'' @ [LF]"
    by (simp add: upsert_shape)
  then show ?thesis by blast
qed

subsection \<open>Which lines are delimiters, which are summary lines\<close>

lemma trim_prefix: "\<exists>ws. dropWhile isSpace l = trim l @ ws \<and> list_all isSpace ws"
proof -
  let ?u = "dropWhile isSpace l"
  have "rev ?u = takeWhile isSpace (rev ?u) @ dropWhile isSpace (rev ?u)" by simp
  then have "?u = rev (dropWhile isSpace (rev ?u)) @ rev (takeWhile isSpace (rev ?u))"
    by (metis rev_append rev_rev_ident)
  moreover have "list_all isSpace (rev (takeWhile isSpace (rev ?u)))"
    by (simp add: list_all_iff) (metis set_takeWhileD)
  ultimately show ?thesis unfolding trim_def by blast
qed

lemma delimiter_shape:
  assumes "isDelimiter l"
  shows "\<exists>ws. dropWhile isSpace l = asc ''---'' @ ws"
  using assms trim_prefix [of l] unfolding isDelimiter_def by auto

lemma keepLine_not_delimiter: "keepLine l \<Longrightarrow> \<not> isDelimiter l"
proof
  assume k: "keepLine l" and d: "isDelimiter l"
  from d obtain ws where u: "dropWhile isSpace l = asc ''---'' @ ws"
    using delimiter_shape by blast
  have "\<not> isYamlKey l" using u by (simp add: isYamlKey_def isKeyStart_def)
  moreover have "\<not> isYamlListItem l" using u by (simp add: isYamlListItem_def Let_def isSpace_def)
  moreover have "\<not> isYamlComment l" using u by (simp add: isYamlComment_def startsWith_def)
  moreover have "\<not> isEmptyLine l" using u by (simp add: isEmptyLine_def)
  ultimately show False using k by (simp add: keepLine_def split: if_splits)
qed

lemma isDelimiter_dashes: "isDelimiter (asc ''---'')"
  by (simp add: isDelimiter_def trim_def isSpace_def)

lemma not_isDelimiter_Nil: "\<not> isDelimiter []"
  by (simp add: isDelimiter_def trim_def)

lemma isSummaryLine_start: "isSummaryLine (asc ''summary: '' @ r)"
  by (simp add: isSummaryLine_def Let_def isSpace_def startsWithCI_def startsWith_def)

lemma isSummaryLine_summaryLine: "isSummaryLine (summaryLine s)"
  unfolding summaryLine_def by (rule isSummaryLine_start)

lemma not_isSummaryLine_dashes: "\<not> isSummaryLine (asc ''---'')" "\<not> isSummaryLine []"
  by (simp_all add: isSummaryLine_def Let_def isSpace_def startsWithCI_def startsWith_def upperAscii_def)

lemma summaryLine_not_delimiter: "\<not> isDelimiter (summaryLine s)"
proof
  assume "isDelimiter (summaryLine s)"
  then obtain ws where "dropWhile isSpace (summaryLine s) = asc ''---'' @ ws"
    using delimiter_shape by blast
  then show False by (simp add: summaryLine_def isSpace_def)
qed

lemma startsWith_single: "startsWith s [c] \<Longrightarrow> c \<in> set s"
  by (cases s) (simp_all add: startsWith_def)

lemma isSummaryLine_colon: "isSummaryLine l \<Longrightarrow> COLON \<in> set l"
proof -
  assume "isSummaryLine l"
  then have "startsWith (dropWhile isSpace (drop 7 (dropWhile isSpace l))) [COLON]"
    unfolding isSummaryLine_def Let_def by (rule conjunct2)
  then have "COLON \<in> set (dropWhile isSpace (drop 7 (dropWhile isSpace l)))"
    by (rule startsWith_single)
  then have "COLON \<in> set (drop 7 (dropWhile isSpace l))" by (rule set_dropWhileD)
  then have "COLON \<in> set (dropWhile isSpace l)" by (rule in_set_dropD)
  then show ?thesis by (rule set_dropWhileD)
qed

lemma keepLine_not_summary: "keepLine l \<Longrightarrow> \<not> isSummaryLine l"
  unfolding keepLine_def by (cases "isSummaryLine l") simp_all

lemma bodyLines_keep: "l \<in> set (bodyLines fm) \<Longrightarrow> keepLine l \<and> LF \<notin> set l"
proof -
  assume "l \<in> set (bodyLines fm)"
  then have k: "keepLine l" and "l \<in> set (splitLF fm)"
    by (auto simp: bodyLines_def Let_def dest: in_set_dropD in_set_takeD)
  then show ?thesis using splitLF_pieces by blast
qed

lemma findIndexFrom_first:
  "\<forall>l \<in> set xs. \<not> P l \<Longrightarrow> P y \<Longrightarrow> findIndexFrom P i (xs @ y # zs) = Some (i + length xs)"
  by (induction xs arbitrary: i) auto

lemma splitLinesAcc_cut:
  "splitLinesAcc piece (x @ LF # y) = splitLinesAcc piece x @ splitLinesAcc [] y"
  by (induction x arbitrary: piece) auto

lemma splitLF_cut: "splitLF (x @ LF # y) = splitLF x @ splitLF y"
  by (simp add: splitLF_def splitLinesAcc_cut)

lemma splitLF_join_concat: "ls \<noteq> [] \<Longrightarrow> splitLF (join [LF] ls) = concat (map splitLF ls)"
proof (induction "[LF]" ls rule: join.induct)
  case (3 x y ys)
  then show ?case by (simp add: splitLF_cut)
qed simp_all

lemma set_escapeYaml: "c \<in> set (escapeYaml s) \<Longrightarrow> c = DQUOTE \<or> c = BACKSLASH \<or> c \<in> set s"
  by (auto simp: escapeYaml_def split: if_splits)

lemma set_summaryLine:
  "c \<in> set (summaryLine s) \<Longrightarrow> c \<in> set (asc ''summary: '') \<or> c = DQUOTE \<or> c = BACKSLASH \<or> c \<in> set s"
  unfolding summaryLine_def using set_escapeYaml by fastforce

lemma summaryLine_no_LF: "LF \<notin> set s \<Longrightarrow> LF \<notin> set (summaryLine s)"
  using set_summaryLine [of LF s] by auto

text \<open>The lines of the rebuilt block when the summary holds no line feed.\<close>
lemma splitLF_upsert:
  assumes "LF \<notin> set s"
  shows "splitLF (upsertSummaryInFrontmatter fm s) =
         [asc ''---''] @ (if fm = [] then [] else bodyLines fm) @ [summaryLine s, asc ''---'', []]"
proof -
  let ?B = "if fm = [] then [] else bodyLines fm"
  let ?L = "[asc ''---''] @ ?B @ [summaryLine s, asc ''---'', []]"
  have "\<forall>l \<in> set ?L. LF \<notin> set l"
    using assms summaryLine_no_LF bodyLines_keep by auto
  moreover have "?L \<noteq> []" by simp
  ultimately have "splitLF (join [LF] ?L) = ?L" by (rule splitLF_join [rotated])
  then show ?thesis by (simp only: upsert_shape)
qed

lemma upsert_nonempty: "upsertSummaryInFrontmatter fm s \<noteq> []"
  using upsert_tail [of fm s] by auto

lemma bodyLines_upsert:
  assumes "LF \<notin> set s"
  shows "bodyLines (upsertSummaryInFrontmatter fm s) = (if fm = [] then [] else bodyLines fm)"
proof -
  define B where "B = (if fm = [] then [] else bodyLines fm)"
  define L where "L = [asc ''---''] @ B @ [summaryLine s, asc ''---'', []]"
  have lines: "splitLF (upsertSummaryInFrontmatter fm s) = L"
    unfolding L_def B_def by (rule splitLF_upsert [OF assms])
  have keep: "\<forall>l \<in> set B. keepLine l" unfolding B_def using bodyLines_keep by auto
  have nd: "\<forall>l \<in> set (B @ [summaryLine s]). \<not> isDelimiter l"
    using keep keepLine_not_delimiter summaryLine_not_delimiter by auto
  have "closingIndex L = findIndexFrom isDelimiter 1 ((B @ [summaryLine s]) @ asc ''---'' # [[]])"
    by (simp add: closingIndex_def L_def)
  also have "\<dots> = Some (1 + length (B @ [summaryLine s]))"
    using nd isDelimiter_dashes by (rule findIndexFrom_first)
  finally have ci: "closingIndex L = Some (length B + 2)" by simp
  have "take (length B + 2) L = [asc ''---''] @ B @ [summaryLine s]" by (simp add: L_def)
  then have dt: "drop 1 (take (length B + 2) L) = B @ [summaryLine s]" by simp
  have "\<not> keepLine (summaryLine s)"
    using keepLine_not_summary [of "summaryLine s"] isSummaryLine_summaryLine [of s] by blast
  then have fl: "filter keepLine (B @ [summaryLine s]) = B"
    using keep by (simp add: filter_id_conv)
  have "bodyLines (upsertSummaryInFrontmatter fm s) =
        filter keepLine (drop 1 (take (case closingIndex L of None \<Rightarrow> length L | Some i \<Rightarrow> i) L))"
    by (simp add: bodyLines_def [of "upsertSummaryInFrontmatter fm s"] Let_def lines)
  also have "\<dots> = B" by (simp only: ci option.case dt fl)
  finally show ?thesis by (simp add: B_def)
qed

text \<open>
  C3 (as amended). For every front-matter block and every summary string that holds no
  line feed, the upsert applied twice with the same summary gives what it gives applied
  once; the result has one \<open>summary\<close> line and two delimiter lines, the opening and the
  closing one.
\<close>
theorem upsert_idempotent:
  assumes "LF \<notin> set s"
  shows "upsertSummaryInFrontmatter (upsertSummaryInFrontmatter fm s) s = upsertSummaryInFrontmatter fm s \<and>
         length (filter isSummaryLine (splitLF (upsertSummaryInFrontmatter (upsertSummaryInFrontmatter fm s) s))) = 1 \<and>
         length (filter isDelimiter (splitLF (upsertSummaryInFrontmatter (upsertSummaryInFrontmatter fm s) s))) = 2"
proof -
  define B where "B = (if fm = [] then [] else bodyLines fm)"
  define out where "out = upsertSummaryInFrontmatter fm s"
  have shape: "out = join [LF] ([asc ''---''] @ B @ [summaryLine s, asc ''---'', []])"
    unfolding out_def B_def by (rule upsert_shape)
  have ne: "out \<noteq> []" unfolding out_def by (rule upsert_nonempty)
  have bl: "bodyLines out = B" unfolding out_def B_def by (rule bodyLines_upsert [OF assms])
  have "upsertSummaryInFrontmatter out s =
        join [LF] ([asc ''---''] @ (if out = [] then [] else bodyLines out) @ [summaryLine s, asc ''---'', []])"
    by (rule upsert_shape)
  also have "\<dots> = join [LF] ([asc ''---''] @ B @ [summaryLine s, asc ''---'', []])"
    using ne bl by simp
  finally have idem: "upsertSummaryInFrontmatter out s = out" using shape by simp
  have lines: "splitLF out = [asc ''---''] @ B @ [summaryLine s, asc ''---'', []]"
    unfolding out_def B_def by (rule splitLF_upsert [OF assms])
  have keep: "\<forall>l \<in> set B. keepLine l" unfolding B_def using bodyLines_keep by auto
  have s0: "filter isSummaryLine B = []"
    using keep keepLine_not_summary by (auto simp: filter_empty_conv)
  have d0: "filter isDelimiter B = []"
    using keep keepLine_not_delimiter by (auto simp: filter_empty_conv)
  have "filter isSummaryLine (splitLF out) = [summaryLine s]"
    using s0 isSummaryLine_summaryLine [of s] not_isSummaryLine_dashes by (simp add: lines)
  moreover have "filter isDelimiter (splitLF out) = [asc ''---'', asc ''---'']"
    using d0 summaryLine_not_delimiter [of s] isDelimiter_dashes not_isDelimiter_Nil
    by (simp add: lines)
  ultimately show ?thesis using idem unfolding out_def by simp
qed

lemmas line_defs = bodyLines_def closingIndex_def isDelimiter_def keepLine_def isSummaryLine_def
  isFenceLine_def isYamlKey_def isYamlListItem_def isYamlComment_def isEmptyLine_def
  isKeyStart_def isKeyChar_def isWord_def isDigit_def isLineTerminator_def
  startsWith_def startsWithCI_def upperAscii_def trim_def isSpace_def

lemmas upsert_defs = upsertSummaryInFrontmatter_def summaryLine_def escapeYaml_def
  withFinalNewline_def endsWith_def splitLF_def

theorem upsert_idempotent_witness:
  "upsertSummaryInFrontmatter (asc ''---'' @ [LF] @ asc ''title: T'' @ [LF] @ asc ''junk'' @ [LF] @ asc ''---'')
     (asc ''ok'' @ [CJK_STOP]) =
     asc ''---'' @ [LF] @ asc ''title: T'' @ [LF] @ asc ''summary: '' @ [DQUOTE] @ asc ''ok'' @ [CJK_STOP, DQUOTE, LF] @ asc ''---'' @ [LF] \<and>
   upsertSummaryInFrontmatter
     (upsertSummaryInFrontmatter (asc ''---'' @ [LF] @ asc ''title: T'' @ [LF] @ asc ''junk'' @ [LF] @ asc ''---'')
        (asc ''ok'' @ [CJK_STOP]))
     (asc ''ok'' @ [CJK_STOP]) =
   upsertSummaryInFrontmatter (asc ''---'' @ [LF] @ asc ''title: T'' @ [LF] @ asc ''junk'' @ [LF] @ asc ''---'')
     (asc ''ok'' @ [CJK_STOP])"
proof -
  have h: "LF \<notin> set (asc ''ok'' @ [CJK_STOP])" by simp
  have "upsertSummaryInFrontmatter (asc ''---'' @ [LF] @ asc ''title: T'' @ [LF] @ asc ''junk'' @ [LF] @ asc ''---'')
     (asc ''ok'' @ [CJK_STOP]) =
     asc ''---'' @ [LF] @ asc ''title: T'' @ [LF] @ asc ''summary: '' @ [DQUOTE] @ asc ''ok'' @ [CJK_STOP, DQUOTE, LF] @ asc ''---'' @ [LF]"
    by (simp add: upsert_defs line_defs)
  then show ?thesis
    using upsert_idempotent [OF h, of "asc ''---'' @ [LF] @ asc ''title: T'' @ [LF] @ asc ''junk'' @ [LF] @ asc ''---''"]
    by simp
qed

theorem upsert_twice_differs_counterexample:
  "upsertSummaryInFrontmatter [] (asc ''a'' @ [LF, LF] @ asc ''b'') =
     asc ''---'' @ [LF] @ asc ''summary: '' @ [DQUOTE] @ asc ''a'' @ [LF, LF] @ asc ''b'' @ [DQUOTE, LF] @ asc ''---'' @ [LF] \<and>
   upsertSummaryInFrontmatter (upsertSummaryInFrontmatter [] (asc ''a'' @ [LF, LF] @ asc ''b''))
     (asc ''a'' @ [LF, LF] @ asc ''b'') =
     asc ''---'' @ [LF, LF] @ asc ''summary: '' @ [DQUOTE] @ asc ''a'' @ [LF, LF] @ asc ''b'' @ [DQUOTE, LF] @ asc ''---'' @ [LF] \<and>
   upsertSummaryInFrontmatter (upsertSummaryInFrontmatter [] (asc ''a'' @ [LF, LF] @ asc ''b''))
     (asc ''a'' @ [LF, LF] @ asc ''b'') \<noteq>
   upsertSummaryInFrontmatter [] (asc ''a'' @ [LF, LF] @ asc ''b'')"
  by (simp add: upsert_defs line_defs)

lemma splitLF_lines_concat:
  "\<forall>l \<in> set B. LF \<notin> set l \<Longrightarrow> concat (map splitLF B) = B"
  by (induction B) (simp_all add: splitLF_line)

lemma summary_pieces:
  assumes "COLON \<notin> set s"
  shows "filter isSummaryLine (splitLF (summaryLine s)) =
         [asc ''summary: '' @ hd (splitLF (escapeYaml s))]"
proof -
  let ?E = "escapeYaml s"
  have "LF \<notin> set (asc ''summary: '')" by simp
  then have sp: "splitLF (summaryLine s) = (asc ''summary: '' @ hd (splitLF ?E)) # tl (splitLF ?E)"
    unfolding summaryLine_def by (rule splitLF_prefix)
  have "\<not> isSummaryLine l" if "l \<in> set (tl (splitLF ?E))" for l
  proof
    assume "isSummaryLine l"
    then have "COLON \<in> set l" by (rule isSummaryLine_colon)
    moreover from that have "l \<in> set (splitLF ?E)" by (metis list.sel(2) list.set_sel(2))
    ultimately have "COLON \<in> set ?E" using splitLF_pieces by blast
    then show False using assms set_escapeYaml [of COLON s] by simp
  qed
  then have "filter isSummaryLine (tl (splitLF ?E)) = []" by (simp add: filter_empty_conv)
  then show ?thesis using sp isSummaryLine_start by simp
qed

lemma upsert_one_summary_line:
  assumes "COLON \<notin> set s"
  shows "length (filter isSummaryLine (splitLF (upsertSummaryInFrontmatter fm s))) = 1"
proof -
  define B where "B = (if fm = [] then [] else bodyLines fm)"
  have keep: "\<forall>l \<in> set B. keepLine l \<and> LF \<notin> set l" unfolding B_def using bodyLines_keep by auto
  have "splitLF (upsertSummaryInFrontmatter fm s) =
        concat (map splitLF ([asc ''---''] @ B @ [summaryLine s, asc ''---'', []]))"
    unfolding upsert_shape B_def by (rule splitLF_join_concat) simp
  also have "\<dots> = [asc ''---''] @ concat (map splitLF B) @ splitLF (summaryLine s) @ [asc ''---'', []]"
    by (simp add: splitLF_line splitLF_Nil)
  also have "concat (map splitLF B) = B" using keep by (simp add: splitLF_lines_concat)
  finally have lines: "splitLF (upsertSummaryInFrontmatter fm s) =
        [asc ''---''] @ B @ splitLF (summaryLine s) @ [asc ''---'', []]" .
  have "filter isSummaryLine B = []"
    using keep keepLine_not_summary by (auto simp: filter_empty_conv)
  then show ?thesis
    using summary_pieces [OF assms] not_isSummaryLine_dashes by (simp add: lines)
qed

lemma canonical_no_colon: "COLON \<notin> set (toDeclarativeSentence t m)"
  using set_toDeclarativeSentence [of COLON t m] by (auto simp: clsColon_def)

lemma canonical_no_quote: "DQUOTE \<notin> set (toDeclarativeSentence t m)"
  using set_toDeclarativeSentence [of DQUOTE t m] by (auto simp: clsSymbol_def)

text \<open>
  With a summary on one line that holds no double quote, the rebuilt block has these
  lines: the opening delimiter, the lines that were kept, the \<open>summary\<close> entry with its
  value between double quotes, the closing delimiter, and nothing behind the line feed
  that ends it; the entry is the only \<open>summary\<close> line.
\<close>
lemma upsert_entry_on_one_line:
  assumes "LF \<notin> set s" "DQUOTE \<notin> set s"
  shows "splitLF (upsertSummaryInFrontmatter fm s) =
           [asc ''---''] @ (if fm = [] then [] else bodyLines fm) @
           [asc ''summary: '' @ [DQUOTE] @ s @ [DQUOTE], asc ''---'', []] \<and>
         filter isSummaryLine (splitLF (upsertSummaryInFrontmatter fm s)) =
           [asc ''summary: '' @ [DQUOTE] @ s @ [DQUOTE]]"
proof -
  define B where "B = (if fm = [] then [] else bodyLines fm)"
  have e: "summaryLine s = asc ''summary: '' @ [DQUOTE] @ s @ [DQUOTE]"
    using escapeYaml_plain [OF assms(2)] by (simp add: summaryLine_def)
  have lines: "splitLF (upsertSummaryInFrontmatter fm s) = [asc ''---''] @ B @ [summaryLine s, asc ''---'', []]"
    unfolding B_def by (rule splitLF_upsert [OF assms(1)])
  have keep: "\<forall>l \<in> set B. keepLine l" unfolding B_def using bodyLines_keep by auto
  have "filter isSummaryLine B = []"
    using keep keepLine_not_summary by (auto simp: filter_empty_conv)
  then have "filter isSummaryLine (splitLF (upsertSummaryInFrontmatter fm s)) = [summaryLine s]"
    using isSummaryLine_summaryLine [of s] not_isSummaryLine_dashes by (simp add: lines)
  with lines show ?thesis unfolding e B_def by simp
qed

section \<open>Verification: splitting a document\<close>

lemma fmCloseAt_lookahead: "fmCloseAt s = Some n \<Longrightarrow> fmLookahead (drop n s)"
  by (auto simp: fmCloseAt_def split: if_splits)

lemma fmLazyClose_lookahead: "fmLazyClose s = Some k \<Longrightarrow> fmLookahead (drop k s)"
proof (induction s arbitrary: k)
  case Nil
  then show ?case by simp
next
  case (Cons c cs)
  show ?case
  proof (cases "fmCloseAt (c # cs)")
    case (Some n)
    with Cons.prems have "k = n" by simp
    with Some show ?thesis by (simp add: fmCloseAt_lookahead)
  next
    case None
    with Cons.prems obtain j where j: "fmLazyClose cs = Some j" "k = Suc j" by auto
    then have "fmLookahead (drop j cs)" using Cons.IH by blast
    with j show ?thesis by simp
  qed
qed

lemma frontmatterMatch_lookahead:
  assumes "frontmatterMatch s = Some n"
  shows "fmLookahead (drop n s)"
proof -
  from assms obtain a k where a: "fmOpen s = Some a" and k: "fmLazyClose (drop a s) = Some k"
    and n: "n = a + k"
    by (auto simp: frontmatterMatch_def split: option.splits)
  from k have "fmLookahead (drop k (drop a s))" by (rule fmLazyClose_lookahead)
  then show ?thesis using n by (simp add: add.commute)
qed

lemma lookahead_no_block: "fmLookahead t \<Longrightarrow> frontmatterMatch t = None"
proof -
  assume "fmLookahead t"
  then have "t = [] \<or> hd t = CR \<or> hd t = LF"
    by (cases t) (auto simp: fmLookahead_def startsWith_def)
  then have "fmOpen t = None"
    by (cases t) (auto simp: fmOpen_def startsWith_def)
  then show ?thesis by (simp add: frontmatterMatch_def)
qed

text \<open>What stands behind a match of the expression is a line break or nothing, and the
  expression starts with a dash.\<close>
lemma no_second_block: "frontmatterMatch s = Some n \<Longrightarrow> frontmatterMatch (drop n s) = None"
  using frontmatterMatch_lookahead lookahead_no_block by blast

lemma takeWhile_replicate: "takeWhile (\<lambda>c. c = a) xs = replicate (length (takeWhile (\<lambda>c. c = a) xs)) a"
  by (induction xs) auto

lemma stripGap_gap:
  "\<exists>gap k. t = gap @ stripGap t \<and> (gap = replicate k LF \<or> gap = CR # replicate k LF)"
proof -
  define t' where "t' = (if startsWith t [CR] then drop 1 t else t)"
  define k where "k = length (takeWhile (\<lambda>c. c = LF) t')"
  have sg: "stripGap t = dropWhile (\<lambda>c. c = LF) t'" by (simp add: stripGap_def t'_def)
  have tw: "takeWhile (\<lambda>c. c = LF) t' = replicate k LF"
    unfolding k_def by (rule takeWhile_replicate)
  have t': "t' = replicate k LF @ stripGap t"
    using takeWhile_dropWhile_id [of "\<lambda>c. c = LF" t'] by (simp add: sg tw)
  show ?thesis
  proof (cases "startsWith t [CR]")
    case True
    then have "t = CR # t'" by (cases t) (auto simp: startsWith_def t'_def)
    with t' have "t = (CR # replicate k LF) @ stripGap t" by simp
    then show ?thesis by blast
  next
    case False
    then have "t = t'" by (simp add: t'_def)
    with t' have "t = replicate k LF @ stripGap t" by simp
    then show ?thesis by blast
  qed
qed

lemma leading_white_space:
  "\<exists>lead. content = lead @ trimStart (stripBOM content) \<and> list_all isSpace lead"
proof -
  have 1: "\<exists>bom. content = bom @ stripBOM content \<and> list_all isSpace bom"
  proof (cases "startsWith content [0xFEFF]")
    case True
    then have "content = [0xFEFF] @ stripBOM content"
      by (cases content) (auto simp: startsWith_def stripBOM_def)
    moreover have "list_all isSpace [0xFEFF]" by (simp add: isSpace_def)
    ultimately show ?thesis by blast
  next
    case False
    then have "content = [] @ stripBOM content \<and> list_all isSpace []" by (simp add: stripBOM_def)
    then show ?thesis by blast
  qed
  then obtain bom where bom: "content = bom @ stripBOM content" "list_all isSpace bom" by blast
  let ?ws = "takeWhile isSpace (stripBOM content)"
  have "stripBOM content = ?ws @ trimStart (stripBOM content)" by (simp add: trimStart_def)
  moreover have "list_all isSpace ?ws" by (simp add: list_all_iff) (metis set_takeWhileD)
  ultimately have "content = (bom @ ?ws) @ trimStart (stripBOM content) \<and> list_all isSpace (bom @ ?ws)"
    using bom by simp
  then show ?thesis by blast
qed

text \<open>
  C4 (as amended). Every document text with no front-matter block or with one is: white
  space (a byte order mark is white space), the front matter, a gap, the body, where
  the gap is an optional carriage return followed by line feeds, and is empty when there
  is no front-matter block. The front matter is the block as it stands in the text. So
  joining front matter and body gives the text without its leading white space and
  without the line breaks that follow the closing delimiter.
\<close>
theorem split_then_rejoin:
  assumes "\<not> hasSecondBlock content"
  shows "(let r = splitFrontmatterAndBody content
    in \<exists>lead gap k.
         content = lead @ sr_frontmatter r @ gap @ sr_body r \<and>
         list_all isSpace lead \<and>
         (gap = replicate k LF \<or> gap = CR # replicate k LF) \<and>
         (sr_frontmatter r = [] \<longrightarrow> gap = []) \<and>
         (case frontmatterMatch (trimStart (stripBOM content)) of
            None \<Rightarrow> sr_frontmatter r = []
          | Some n \<Rightarrow> sr_frontmatter r = take n (trimStart (stripBOM content))))"
proof -
  define c where "c = trimStart (stripBOM content)"
  obtain lead where lead: "content = lead @ c" "list_all isSpace lead"
    unfolding c_def using leading_white_space by blast
  show ?thesis
  proof (cases "frontmatterMatch c")
    case None
    then have r: "splitFrontmatterAndBody content = \<lparr>sr_frontmatter = [], sr_body = c\<rparr>"
      by (simp add: splitFrontmatterAndBody_def Let_def c_def)
    have "content = lead @ [] @ [] @ c \<and> list_all isSpace lead \<and>
          (([]::jstring) = replicate 0 LF \<or> [] = CR # replicate 0 LF)"
      using lead by simp
    then show ?thesis unfolding Let_def r c_def [symmetric] using None by fastforce
  next
    case (Some n)
    then have "frontmatterMatch (drop n c) = None" by (rule no_second_block)
    with Some have r: "splitFrontmatterAndBody content =
        \<lparr>sr_frontmatter = take n c, sr_body = stripGap (drop n c)\<rparr>"
      by (simp add: splitFrontmatterAndBody_def Let_def c_def)
    obtain gap k where gap: "drop n c = gap @ stripGap (drop n c)"
      "gap = replicate k LF \<or> gap = CR # replicate k LF"
      using stripGap_gap by blast
    have "c = take n c @ drop n c" by simp
    with gap(1) have "c = take n c @ gap @ stripGap (drop n c)" by metis
    with lead have "content = lead @ take n c @ gap @ stripGap (drop n c)" by metis
    moreover have "take n c \<noteq> []"
      using Some by (auto simp: frontmatterMatch_def fmOpen_def startsWith_def split: if_splits option.splits)
    ultimately show ?thesis unfolding Let_def r c_def [symmetric] using Some lead(2) gap(2) by fastforce
  qed
qed

section \<open>Verification: the code-likeness gate\<close>

subsection \<open>The signals on a canonical sentence\<close>

lemma regexTest_char:
  assumes "\<And>prev s. m prev s \<noteq> None \<Longrightarrow> c \<in> set s"
  shows "regexTest m prev s \<Longrightarrow> c \<in> set s"
proof (induction s arbitrary: prev)
  case Nil
  then show ?case by simp
next
  case (Cons d ds)
  then have "m prev (d # ds) \<noteq> None \<or> regexTest m (Some d) ds" by simp
  then show ?case
  proof
    assume "m prev (d # ds) \<noteq> None"
    then show ?thesis by (rule assms)
  next
    assume "regexTest m (Some d) ds"
    then have "c \<in> set ds" by (rule Cons.IH)
    then show ?thesis by simp
  qed
qed

lemma startsWith_set: "startsWith s p \<Longrightarrow> set p \<subseteq> set s"
  unfolding startsWith_def by (metis set_take_subset)

lemma mFence_backtick: "mFence prev s \<noteq> None \<Longrightarrow> BACKTICK \<in> set s"
proof -
  assume "mFence prev s \<noteq> None"
  then have "startsWith s FENCE" by (auto simp: mFence_def split: if_splits)
  then show ?thesis using startsWith_set by fastforce
qed

lemma mInlineCode1_backtick: "mInlineCode1 prev s \<noteq> None \<Longrightarrow> BACKTICK \<in> set s"
proof -
  assume "mInlineCode1 prev s \<noteq> None"
  then have "startsWith s [BACKTICK]" by (auto simp: mInlineCode1_def Let_def split: if_splits)
  then show ?thesis using startsWith_set by fastforce
qed

lemma mArrow_equals: "mArrow prev s \<noteq> None \<Longrightarrow> of_char CHR ''='' \<in> set s"
proof -
  assume "mArrow prev s \<noteq> None"
  then obtain n where "startsWith (drop n s) (asc ''=>'')"
    by (auto simp: mArrow_def Let_def split: if_splits)
  then have "of_char CHR ''='' \<in> set (drop n s)" using startsWith_set by fastforce
  then show ?thesis by (rule in_set_dropD)
qed

lemma mDotted_dot: "mDotted prev s \<noteq> None \<Longrightarrow> of_char CHR ''.'' \<in> set s"
proof -
  assume "mDotted prev s \<noteq> None"
  then obtain n where "startsWith (drop n s) (asc ''.'')"
    by (auto simp: mDotted_def Let_def split: if_splits)
  then have "of_char CHR ''.'' \<in> set (drop n s)" using startsWith_set by fastforce
  then show ?thesis by (rule in_set_dropD)
qed

lemma canonical_clean:
  assumes "c \<in> set (toDeclarativeSentence t m)"
  shows "c \<noteq> BACKTICK \<and> c \<noteq> of_char CHR ''='' \<and> c \<noteq> of_char CHR ''.'' \<and> \<not> clsStructural c"
  using set_toDeclarativeSentence [OF assms]
  by (auto simp: clsSymbol_def clsStop_def clsBracket_def clsStructural_def)

lemma codeScore_canonical:
  "codeScore (toDeclarativeSentence t m) =
   (if regexTest mKeyword None (toDeclarativeSentence t m) then 2 else 0)"
proof -
  let ?x = "toDeclarativeSentence t m"
  have "\<not> regexTest mFence None ?x"
    using regexTest_char [of mFence BACKTICK None ?x] mFence_backtick canonical_clean by blast
  moreover have "\<not> regexTest mInlineCode1 None ?x"
    using regexTest_char [of mInlineCode1 BACKTICK None ?x] mInlineCode1_backtick canonical_clean
    by blast
  moreover have "\<not> regexTest mArrow None ?x"
    using regexTest_char [of mArrow "of_char CHR ''=''" None ?x] mArrow_equals canonical_clean
    by blast
  moreover have "\<not> regexTest mDotted None ?x"
    using regexTest_char [of mDotted "of_char CHR ''.''" None ?x] mDotted_dot canonical_clean
    by blast
  moreover have "filter clsStructural ?x = []"
    using canonical_clean by (auto simp: filter_empty_conv)
  ultimately show ?thesis by (simp add: codeScore_def)
qed

lemma canonical_nonempty: "toDeclarativeSentence t m \<noteq> []"
  using toDeclarativeSentence_endsWith [of t m] by (auto simp: endsWith_def)

lemma regexTest_nonempty: "regexTest m prev s \<Longrightarrow> s \<noteq> []"
  by (cases s) auto

text \<open>
  The score adds 2 for a fenced block, 1 for inline code, 2 for a keyword, 1 for an
  arrow, 1 for a dotted access and 1 for three or more structural characters, and a text
  looks like code from 2 on: a text with a fenced block and a keyword does.
\<close>
lemma codeScore_weights:
  "codeScore text =
     2 * of_bool (regexTest mFence None text) + of_bool (regexTest mInlineCode1 None text) +
     2 * of_bool (regexTest mKeyword None text) + of_bool (regexTest mArrow None text) +
     of_bool (regexTest mDotted None text) + of_bool (3 \<le> length (filter clsStructural text)) \<and>
   (looksLikeCode text \<longleftrightarrow> text \<noteq> [] \<and> 2 \<le> codeScore text) \<and>
   (regexTest mFence None text \<and> regexTest mKeyword None text \<longrightarrow> looksLikeCode text)"
proof -
  have weights: "codeScore text =
     2 * of_bool (regexTest mFence None text) + of_bool (regexTest mInlineCode1 None text) +
     2 * of_bool (regexTest mKeyword None text) + of_bool (regexTest mArrow None text) +
     of_bool (regexTest mDotted None text) + of_bool (3 \<le> length (filter clsStructural text))"
    by (simp add: codeScore_def)
  have thr: "looksLikeCode text \<longleftrightarrow> text \<noteq> [] \<and> 2 \<le> codeScore text"
    by (simp add: looksLikeCode_def)
  have both: "regexTest mFence None text \<and> regexTest mKeyword None text \<longrightarrow> looksLikeCode text"
    using regexTest_nonempty [of mFence None "text"] by (auto simp: looksLikeCode_def codeScore_def)
  from weights thr both show ?thesis by (intro conjI)
qed

text \<open>
  The text that \<open>processOne\<close> hands to \<open>looksLikeCode\<close> is not the answer of the endpoint
  but what \<open>sanitizeSummaryText\<close> made of it. No fenced block is left in that text, and
  of the six signals only the keyword can be found in it.
\<close>
lemma scorer_sees_sanitized_text:
  "\<not> regexTest mFence None (sanitizeSummaryText raw SUMMARY_MAX_LEN) \<and>
   (summarySource (Some raw) = FromLocal \<longleftrightarrow>
      sanitizeSummaryText raw SUMMARY_MAX_LEN = [] \<or>
      regexTest mKeyword None (sanitizeSummaryText raw SUMMARY_MAX_LEN))"
proof -
  let ?s = "sanitizeSummaryText raw SUMMARY_MAX_LEN"
  have cases: "?s = [] \<or> (\<exists>x. ?s = toDeclarativeSentence x SUMMARY_MAX_LEN)"
    by (rule sanitizeSummaryText_cases)
  have nofence: "\<not> regexTest mFence None ?s"
  proof
    assume "regexTest mFence None ?s"
    then have "BACKTICK \<in> set ?s" using regexTest_char [of mFence BACKTICK None ?s] mFence_backtick by blast
    with cases show False using canonical_clean by force
  qed
  have look: "looksLikeCode ?s \<longleftrightarrow> regexTest mKeyword None ?s"
  proof (cases "?s = []")
    case True
    then show ?thesis by (simp add: looksLikeCode_def)
  next
    case False
    with cases obtain x where x: "?s = toDeclarativeSentence x SUMMARY_MAX_LEN" by blast
    show ?thesis unfolding x looksLikeCode_def codeScore_canonical using canonical_nonempty by simp
  qed
  have src: "summarySource (Some raw) = FromLocal \<longleftrightarrow> ?s = [] \<or> regexTest mKeyword None ?s"
    using look by (simp add: summarySource_def Let_def)
  from nofence src show ?thesis by (intro conjI)
qed

section \<open>Verification: the credential in the request\<close>



section \<open>Verification: the overwrite policy\<close>

lemma lowerChar_variant:
  assumes "upperAscii x = upperAscii y" "isLowerOrDigit y"
  shows "lowerChar x = [y] \<and> isWord x \<and> \<not> isSpace x"
  using assms
  by (auto simp: upperAscii_def isLowerOrDigit_def lowerChar_def isWord_def isDigit_def isSpace_def
           split: if_splits)

lemma variant_facts:
  assumes "map upperAscii w = map upperAscii a" "list_all isLowerOrDigit a"
  shows "toLowerCase w = a \<and> list_all isWord w \<and> list_all (\<lambda>c. \<not> isSpace c) w"
proof -
  from assms(1) have len: "length w = length a" by (rule map_eq_imp_length_eq)
  from len assms show ?thesis
  proof (induction w a rule: list_induct2)
    case Nil
    then show ?case by (simp add: toLowerCase_def)
  next
    case (Cons x xs y ys)
    then have "upperAscii x = upperAscii y" "isLowerOrDigit y" by simp_all
    then have "lowerChar x = [y] \<and> isWord x \<and> \<not> isSpace x" by (rule lowerChar_variant)
    moreover from Cons have "toLowerCase xs = ys \<and> list_all isWord xs \<and> list_all (\<lambda>c. \<not> isSpace c) xs"
      by simp
    ultimately show ?case by (simp add: toLowerCase_def)
  qed
qed

lemma trim_no_space: "list_all (\<lambda>c. \<not> isSpace c) w \<Longrightarrow> trim w = w"
proof -
  assume a: "list_all (\<lambda>c. \<not> isSpace c) w"
  then have "dropWhile isSpace w = w" by (cases w) auto
  moreover have "dropWhile isSpace (rev w) = rev w"
  proof (cases "rev w")
    case Nil
    then show ?thesis by simp
  next
    case (Cons x xs)
    then have "x \<in> set w" by (metis list.set_intros(1) set_rev)
    with a have "\<not> isSpace x" by (simp add: list_all_iff)
    with Cons show ?thesis by simp
  qed
  ultimately show ?thesis by (simp add: trim_def)
qed

lemma alias_facts:
  assumes "(a, p) \<in> set policyAliases"
  shows "policyOfWord a = Some p \<and> list_all isLowerOrDigit a \<and> a \<noteq> []"
  using assms by (auto simp: policyAliases_def policyOfWord_def isLowerOrDigit_def)

lemma occurs_suffix: "\<not> occursIgnoringCase p (b @ a) \<Longrightarrow> \<not> startsWithCI a p"
proof (induction b)
  case Nil
  then show ?case by (cases a) auto
next
  case (Cons x xs)
  then show ?case by simp
qed

lemma dropWhile_all: "list_all P xs \<Longrightarrow> dropWhile P (xs @ ys) = dropWhile P ys"
  by (induction xs) auto

lemma takeWhile_word:
  assumes "list_all P xs" "ys = [] \<or> \<not> P (hd ys)"
  shows "takeWhile P (xs @ ys) = xs"
  using assms by (induction xs) (cases ys, auto)

lemma space_not_word: "isSpace c \<Longrightarrow> \<not> isWord c"
  by (auto simp: isSpace_def isWord_def isDigit_def)

lemma terminator_space: "isLineTerminator c \<Longrightarrow> isSpace c"
  by (auto simp: isSpace_def isLineTerminator_def)

lemma key_char:
  assumes "upperAscii c = upperAscii k" "k \<in> set POLICY_KEY"
  shows "isWord c \<and> \<not> isSpace c"
proof -
  from assms(2) have "(0x41 \<le> k \<and> k \<le> 0x5A) \<or> k = 0x5F" by auto
  with assms(1) have "isWord c"
    by (auto simp: upperAscii_def isWord_def isDigit_def split: if_splits)
  then show ?thesis using space_not_word by blast
qed

lemma key_variant:
  assumes "sameIgnoringCase key POLICY_KEY"
  shows "length key = 28 \<and> (\<forall>c \<in> set key. isWord c \<and> \<not> isSpace c)"
proof -
  from assms have eq: "map upperAscii key = map upperAscii POLICY_KEY"
    by (simp add: sameIgnoringCase_def)
  then have len: "length key = length POLICY_KEY" by (rule map_eq_imp_length_eq)
  have "isWord c \<and> \<not> isSpace c" if "c \<in> set key" for c
  proof -
    from that obtain i where i: "i < length key" "key ! i = c" by (auto simp: in_set_conv_nth)
    then have "upperAscii c = map upperAscii key ! i" by simp
    also have "\<dots> = upperAscii (POLICY_KEY ! i)" using i(1) len by (simp only: eq nth_map)
    finally have "upperAscii c = upperAscii (POLICY_KEY ! i)" .
    moreover have "POLICY_KEY ! i \<in> set POLICY_KEY" using i(1) len by (simp only: nth_mem)
    ultimately show ?thesis by (rule key_char)
  qed
  with len show ?thesis by simp
qed


lemma startsWithCI_longer:
  assumes "startsWithCI (a @ s) p" "length p \<le> length a"
  shows "startsWithCI a p"
  using assms by (simp add: startsWithCI_def)

lemma startsWithCI_nth:
  assumes "startsWithCI v p" "i < length p"
  shows "i < length v \<and> upperAscii (v ! i) = upperAscii (p ! i)"
proof -
  from assms(1) have eq: "map upperAscii (take (length p) v) = map upperAscii p"
    by (simp add: startsWithCI_def)
  then have "length (take (length p) v) = length p" by (rule map_eq_imp_length_eq)
  then have len: "length p \<le> length v" by simp
  with assms(2) have i: "i < length v" by simp
  have "upperAscii (v ! i) = map upperAscii (take (length p) v) ! i"
    using assms(2) len by simp
  also have "\<dots> = upperAscii (p ! i)" using assms(2) by (simp only: eq nth_map)
  finally show ?thesis using i by simp
qed

lemma key_not_across:
  assumes "startsWithCI (a @ s) POLICY_KEY" "s \<noteq> []" "\<not> isWord (hd s)"
  shows "startsWithCI a POLICY_KEY"
proof (cases "length POLICY_KEY \<le> length a")
  case True
  with assms(1) show ?thesis by (rule startsWithCI_longer)
next
  case False
  then have i: "length a < length POLICY_KEY" by simp
  from startsWithCI_nth [OF assms(1) i]
  have "upperAscii ((a @ s) ! length a) = upperAscii (POLICY_KEY ! length a)" by simp
  moreover have "(a @ s) ! length a = hd s" using assms(2) by (cases s) simp_all
  moreover have "POLICY_KEY ! length a \<in> set POLICY_KEY" using i by (simp only: nth_mem)
  ultimately have "isWord (hd s)" using key_char by metis
  with assms(3) show ?thesis by simp
qed

lemma mPolicyLine_at_line:
  assumes key: "sameIgnoringCase key POLICY_KEY"
    and sep: "sep = COLON \<or> sep = 0x3D"
    and ws: "list_all isSpace ws2" "list_all isSpace ws3" "list_all isSpace ws4"
    and ws5: "list_all (\<lambda>c. isSpace c \<and> \<not> isLineTerminator c) ws5"
    and w: "list_all isWord w" "w \<noteq> []"
    and rest: "rest = [] \<or> isLineTerminator (hd rest)"
    and u: "dropWhile isSpace t = asc ''//'' @ ws2 @ key @ ws3 @ [sep] @ ws4 @ w @ ws5 @ rest"
  shows "mPolicyLine prev t = (if atLineStart prev then Some w else None)"
proof -
  define X where "X = ws3 @ [sep] @ ws4 @ w @ ws5 @ rest"
  define Y where "Y = ws4 @ w @ ws5 @ rest"
  from key_variant [OF key] have klen: "length key = 28" and kch: "\<forall>c \<in> set key. \<not> isSpace c"
    by auto
  from klen obtain k ks where k: "key = k # ks" by (cases key) auto
  with kch have knsp: "\<not> isSpace k" by simp
  from w obtain c cs where wc: "w = c # cs" by (cases w) auto
  with w(1) have cnsp: "\<not> isSpace c" using space_not_word by auto
  have snsp: "\<not> isSpace sep" using sep by (auto simp: isSpace_def)
  have d2: "drop 2 (dropWhile isSpace t) = ws2 @ key @ X" by (simp add: u X_def)
  have v: "dropWhile isSpace (ws2 @ key @ X) = key @ X"
    using dropWhile_all [OF ws(1)] k knsp by simp
  have ci: "startsWithCI (key @ X) POLICY_KEY"
    using key klen by (simp add: startsWithCI_def sameIgnoringCase_def)
  have d28: "drop 28 (key @ X) = ws3 @ sep # Y" using klen by (simp add: X_def Y_def)
  have w': "dropWhile isSpace (ws3 @ sep # Y) = sep # Y"
    using dropWhile_all [OF ws(2)] snsp by simp
  have sw: "startsWith (sep # Y) [COLON] \<or> startsWith (sep # Y) (asc ''='')"
    using sep by (auto simp: startsWith_def)
  have x: "dropWhile isSpace (drop 1 (sep # Y)) = w @ ws5 @ rest"
    using dropWhile_all [OF ws(3)] wc cnsp by (simp add: Y_def)
  have hdnw: "ws5 @ rest = [] \<or> \<not> isWord (hd (ws5 @ rest))"
  proof (cases ws5)
    case Nil
    then show ?thesis using rest terminator_space space_not_word by auto
  next
    case (Cons b bs)
    then show ?thesis using ws5 space_not_word by auto
  qed
  have word: "takeWhile isWord (w @ ws5 @ rest) = w"
    using w(1) hdnw by (rule takeWhile_word)
  have dl: "drop (length w) (w @ ws5 @ rest) = ws5 @ rest" by simp
  have dw5: "dropWhile (\<lambda>c. isSpace c \<and> \<not> isLineTerminator c) (ws5 @ rest) =
             dropWhile (\<lambda>c. isSpace c \<and> \<not> isLineTerminator c) rest"
    using ws5 by (rule dropWhile_all)
  have le0: "lineEndOK (ws5 @ rest) =
      (case dropWhile (\<lambda>c. isSpace c \<and> \<not> isLineTerminator c) rest of
         [] \<Rightarrow> True | c # cs \<Rightarrow> isLineTerminator c)"
    by (simp only: lineEndOK_def dw5)
  have le: "lineEndOK (ws5 @ rest)"
  proof (cases rest)
    case Nil
    then show ?thesis unfolding le0 by simp
  next
    case (Cons r rs)
    with rest have "isLineTerminator r" by simp
    with Cons show ?thesis unfolding le0 by simp
  qed
  have st: "startsWith (dropWhile isSpace t) (asc ''//'')" by (simp add: u startsWith_def)
  show ?thesis
    unfolding mPolicyLine_def Let_def d2 v d28 w' x word dl
    using st ci sw le w(2) by simp
qed


lemma regexExec_here: "m prev s = Some w \<Longrightarrow> regexExec m prev s = Some w"
  by (cases s) simp_all

lemma regexExec_candidates:
  assumes "\<And>prev' b a. pre = b @ a \<Longrightarrow> a \<noteq> [] \<Longrightarrow> m prev' (a @ s) = None \<or> m prev' (a @ s) = Some w"
    and "m (if pre = [] then prev else Some (last pre)) s = Some w"
  shows "regexExec m prev (pre @ s) = Some w"
  using assms
proof (induction pre arbitrary: prev)
  case Nil
  then show ?case by (simp add: regexExec_here)
next
  case (Cons c cs)
  have cand: "m prev ((c # cs) @ s) = None \<or> m prev ((c # cs) @ s) = Some w"
    by (rule Cons.prems(1) [of "[]"]) simp_all
  show ?case
  proof (cases "m prev ((c # cs) @ s)")
    case (Some r)
    with cand show ?thesis by simp
  next
    case None
    have "regexExec m (Some c) (cs @ s) = Some w"
    proof (rule Cons.IH)
      fix prev' b a
      assume "cs = b @ a" "a \<noteq> []"
      then show "m prev' (a @ s) = None \<or> m prev' (a @ s) = Some w"
        using Cons.prems(1) [of "c # b" a prev'] by simp
    next
      show "m (if cs = [] then Some c else Some (last cs)) s = Some w"
        using Cons.prems(2) by (cases "cs = []") simp_all
    qed
    with None show ?thesis by simp
  qed
qed

lemma mPolicyLine_before_line:
  assumes key: "sameIgnoringCase key POLICY_KEY"
    and sep: "sep = COLON \<or> sep = 0x3D"
    and ws: "list_all isSpace ws1" "list_all isSpace ws2" "list_all isSpace ws3" "list_all isSpace ws4"
    and ws5: "list_all (\<lambda>c. isSpace c \<and> \<not> isLineTerminator c) ws5"
    and w: "list_all isWord w" "w \<noteq> []"
    and rest: "rest = [] \<or> isLineTerminator (hd rest)"
    and s: "s = ws1 @ asc ''//'' @ ws2 @ key @ ws3 @ [sep] @ ws4 @ w @ ws5 @ rest"
    and q: "\<And>b a. q = b @ a \<Longrightarrow> \<not> startsWithCI a POLICY_KEY"
  shows "mPolicyLine prev (q @ s) = (if list_all isSpace q \<and> atLineStart prev then Some w else None)"
proof -
  define R where "R = ws2 @ key @ ws3 @ [sep] @ ws4 @ w @ ws5 @ rest"
  have sR: "s = ws1 @ asc ''//'' @ R" by (simp add: s R_def)
  have slash: "\<not> isSpace 0x2F" "\<not> isWord 0x2F"
    by (simp_all add: isSpace_def isWord_def isDigit_def)
  have ds: "dropWhile isSpace s = asc ''//'' @ R"
    using dropWhile_all [OF ws(1)] slash by (simp add: sR)
  have sne: "s \<noteq> []" by (simp add: sR)
  show ?thesis
  proof (cases "list_all isSpace q")
    case True
    then have "dropWhile isSpace (q @ s) = asc ''//'' @ ws2 @ key @ ws3 @ [sep] @ ws4 @ w @ ws5 @ rest"
      using dropWhile_all [OF True, of s] ds by (simp add: R_def)
    then have "mPolicyLine prev (q @ s) = (if atLineStart prev then Some w else None)"
      by (rule mPolicyLine_at_line [OF key sep ws(2) ws(3) ws(4) ws5 w rest])
    with True show ?thesis by simp
  next
    case False
    then obtain c r where cr: "dropWhile isSpace q = c # r" and c: "\<not> isSpace c"
      by (metis dropWhile_eq_Nil_conv hd_dropWhile list.collapse list.pred_set list.sel(1))
    have qsplit: "q = takeWhile isSpace q @ c # r"
      using takeWhile_dropWhile_id [of isSpace q] cr by simp
    have u: "dropWhile isSpace (q @ s) = c # r @ s"
    proof -
      have "dropWhile isSpace (q @ s) = dropWhile isSpace ((takeWhile isSpace q) @ (c # r @ s))"
        using qsplit by (metis append.assoc append_Cons)
      also have "\<dots> = dropWhile isSpace (c # r @ s)"
        by (rule dropWhile_all) (simp add: list_all_iff, metis set_takeWhileD)
      finally show ?thesis using c by simp
    qed
    have "\<not> (startsWith (c # r @ s) (asc ''//'') \<and>
              startsWithCI (dropWhile isSpace (drop 2 (c # r @ s))) POLICY_KEY)"
    proof
      assume a: "startsWith (c # r @ s) (asc ''//'') \<and>
              startsWithCI (dropWhile isSpace (drop 2 (c # r @ s))) POLICY_KEY"
      show False
      proof (cases r)
        case Nil
        with a have "hd s = 0x2F" using sne by (cases s) (auto simp: startsWith_def)
        then have "ws1 = []" using ws(1) slash(1) sR by (cases ws1) auto
        then have "drop 2 (c # r @ s) = 0x2F # R" using Nil sR by simp
        then have "dropWhile isSpace (drop 2 (c # r @ s)) = [] @ (0x2F # R)"
          using slash(1) by simp
        with a have "startsWithCI ([] @ (0x2F # R)) POLICY_KEY" by simp
        then have "startsWithCI [] POLICY_KEY"
          by (rule key_not_across) (simp_all add: slash)
        then show False by (simp add: startsWithCI_def)
      next
        case (Cons d r')
        then have d2: "drop 2 (c # r @ s) = r' @ s" by simp
        show False
        proof (cases "list_all isSpace r'")
          case True
          then have "dropWhile isSpace (r' @ s) = [] @ (asc ''//'' @ R)"
            using dropWhile_all [OF True, of s] ds by simp
          with a d2 have "startsWithCI ([] @ (asc ''//'' @ R)) POLICY_KEY" by simp
          then have "startsWithCI [] POLICY_KEY"
            by (rule key_not_across) (simp_all add: slash)
          then show False by (simp add: startsWithCI_def)
        next
          case False
          then obtain x where x: "x \<in> set r'" "\<not> isSpace x" by (auto simp: list_all_iff)
          then have "dropWhile isSpace (r' @ s) = dropWhile isSpace r' @ s"
            by (simp add: dropWhile_append1)
          with a d2 have "startsWithCI (dropWhile isSpace r' @ s) POLICY_KEY" by simp
          moreover have "\<not> isWord (hd s)"
          proof (cases ws1)
            case Nil
            then show ?thesis using sR slash by simp
          next
            case (Cons y ys)
            then show ?thesis using sR ws(1) space_not_word by simp
          qed
          ultimately have k: "startsWithCI (dropWhile isSpace r') POLICY_KEY"
            using sne key_not_across by blast
          have "q = (takeWhile isSpace q @ [c, d] @ takeWhile isSpace r') @ dropWhile isSpace r'"
            using qsplit Cons by simp
          then show False using q k by blast
        qed
      qed
    qed
    then have "mPolicyLine prev (q @ s) = None"
      unfolding mPolicyLine_def Let_def u by auto
    with False show ?thesis by simp
  qed
qed


lemma trim_padded:
  assumes "list_all isSpace a" "list_all isSpace b" "list_all (\<lambda>c. \<not> isSpace c) w" "w \<noteq> []"
  shows "trim (a @ w @ b) = w"
proof -
  have 1: "dropWhile isSpace (a @ w @ b) = dropWhile isSpace (w @ b)"
    using assms(1) by (rule dropWhile_all)
  have rb: "list_all isSpace (rev b)" using assms(2) by (simp add: list_all_iff)
  show ?thesis
  proof (cases w)
    case Nil
    with assms(4) show ?thesis by simp
  next
    case (Cons c cs)
    with assms(3) have "\<not> isSpace c" by simp
    with Cons have 2: "dropWhile isSpace (w @ b) = w @ b" by simp
    have "dropWhile isSpace (rev b @ rev w) = dropWhile isSpace (rev w)"
      using rb by (rule dropWhile_all)
    moreover have "dropWhile isSpace (rev w) = rev w"
    proof (cases "rev w")
      case Nil
      then show ?thesis by simp
    next
      case (Cons x xs)
      then have "x \<in> set w" by (metis list.set_intros(1) set_rev)
      with assms(3) have "\<not> isSpace x" by (simp add: list_all_iff)
      with Cons show ?thesis by simp
    qed
    ultimately show ?thesis by (simp add: trim_def 1 2)
  qed
qed

text \<open>
  C10. Take a word of the table, written in any mix of upper and lower case. A
  configuration file gives the policy of the table for it when it holds the comment
  \<open>//\<close>, the name \<open>AISUMMARY_OVERWRITE_EXISTING\<close> in any mix of cases, \<open>:\<close> or \<open>=\<close>, and the
  word, with any white space between these parts and blanks up to the end of the line,
  behind lines in which the name does not occur; this policy is then the policy of the
  run, whatever the environment variable holds. The environment variable with the word,
  white space around it, gives the same policy, which is the policy of the run when the
  file yields none. When neither yields a policy, as when there is no file and the
  variable is not set, the policy of the run is \<open>ask\<close> if stdin and stdout are both
  terminals and \<open>never\<close> otherwise.
\<close>
theorem overwrite_policy_aliases:
  assumes entry: "(a, p) \<in> set policyAliases" and variant: "sameIgnoringCase w a"
    and key: "sameIgnoringCase key POLICY_KEY"
    and sep: "sep = COLON \<or> sep = 0x3D"
    and ws: "list_all isSpace ws1" "list_all isSpace ws2" "list_all isSpace ws3" "list_all isSpace ws4"
    and ws5: "list_all (\<lambda>c. isSpace c \<and> \<not> isLineTerminator c) ws5"
    and pre: "pre = [] \<or> isLineTerminator (last pre)" "\<not> occursIgnoringCase POLICY_KEY pre"
    and rest: "rest = [] \<or> isLineTerminator (hd rest)"
    and content: "content = pre @ ws1 @ asc ''//'' @ ws2 @ key @ ws3 @ [sep] @ ws4 @ w @ ws5 @ rest"
  shows "readOverwritePolicyFromCustom (Some content) = Some p \<and>
         getOverwritePolicy (Some content) envValue isInteractive = p \<and>
         runOverwritePolicy (Some content) envValue stdinIsTTY stdoutIsTTY = p \<and>
         readOverwritePolicyFromEnv (Some (ws1 @ w @ ws2)) = Some p \<and>
         (readOverwritePolicyFromCustom configFile = None \<longrightarrow>
            getOverwritePolicy configFile (Some (ws1 @ w @ ws2)) isInteractive = p \<and>
            runOverwritePolicy configFile (Some (ws1 @ w @ ws2)) stdinIsTTY stdoutIsTTY = p) \<and>
         readOverwritePolicyFromCustom None = None \<and>
         readOverwritePolicyFromEnv None = None \<and>
         (readOverwritePolicyFromCustom configFile = None \<and> readOverwritePolicyFromEnv envValue = None \<longrightarrow>
            runOverwritePolicy configFile envValue stdinIsTTY stdoutIsTTY =
              (if stdinIsTTY \<and> stdoutIsTTY then Ask else Never)) \<and>
         runOverwritePolicy None None stdinIsTTY stdoutIsTTY =
           (if stdinIsTTY \<and> stdoutIsTTY then Ask else Never)"
proof -
  from entry have a: "policyOfWord a = Some p" "list_all isLowerOrDigit a" "a \<noteq> []"
    using alias_facts by blast+
  from variant a(2) have w: "toLowerCase w = a" "list_all isWord w" "list_all (\<lambda>c. \<not> isSpace c) w"
    using variant_facts unfolding sameIgnoringCase_def by blast+
  from variant a(3) have ne: "w \<noteq> []" unfolding sameIgnoringCase_def by auto
  define s where "s = ws1 @ asc ''//'' @ ws2 @ key @ ws3 @ [sep] @ ws4 @ w @ ws5 @ rest"
  have nokey: "\<not> startsWithCI t POLICY_KEY" if "pre = b @ t" for b t
    using pre(2) that occurs_suffix by blast
  have at: "mPolicyLine prev (q @ s) = (if list_all isSpace q \<and> atLineStart prev then Some w else None)"
    if "\<And>b t. q = b @ t \<Longrightarrow> \<not> startsWithCI t POLICY_KEY" for prev q
    using key sep ws ws5 w(2) ne rest s_def that by (rule mPolicyLine_before_line)
  have cand: "mPolicyLine prev' (t @ s) = None \<or> mPolicyLine prev' (t @ s) = Some w"
    if "pre = b @ t" for prev' b t
  proof -
    have "\<not> startsWithCI t' POLICY_KEY" if "t = b' @ t'" for b' t'
      using nokey [of "b @ b'" t'] \<open>pre = b @ t\<close> that by simp
    then show ?thesis using at [of t prev'] by simp
  qed
  have "mPolicyLine prev' ([] @ s) = (if list_all isSpace [] \<and> atLineStart prev' then Some w else None)"
    for prev'
    by (rule at) (simp add: startsWithCI_def)
  then have here: "mPolicyLine prev' s = (if atLineStart prev' then Some w else None)" for prev'
    by simp
  have fin: "mPolicyLine (if pre = [] then None else Some (last pre)) s = Some w"
    using pre(1) by (auto simp: here atLineStart_def)
  have "regexExec mPolicyLine None (pre @ s) = Some w"
    using cand fin by (rule regexExec_candidates)
  then have ex: "regexExec mPolicyLine None content = Some w" by (simp add: content s_def)
  have custom: "readOverwritePolicyFromCustom (Some content) = Some p"
    using ex w(1) a(1) by (simp add: readOverwritePolicyFromCustom_def)
  have get: "getOverwritePolicy (Some content) envValue isInteractive = p" for isInteractive
    using custom by (simp add: getOverwritePolicy_def)
  have run: "runOverwritePolicy (Some content) envValue stdinIsTTY stdoutIsTTY = p"
    using get by (simp add: runOverwritePolicy_def)
  have env: "readOverwritePolicyFromEnv (Some (ws1 @ w @ ws2)) = Some p"
    using w(1) a(1,3) trim_padded [OF ws(1) ws(2) w(3) ne]
    by (simp add: readOverwritePolicyFromEnv_def Let_def)
  have fall: "readOverwritePolicyFromCustom configFile = None \<longrightarrow>
            getOverwritePolicy configFile (Some (ws1 @ w @ ws2)) isInteractive = p \<and>
            runOverwritePolicy configFile (Some (ws1 @ w @ ws2)) stdinIsTTY stdoutIsTTY = p"
    using env by (simp add: getOverwritePolicy_def runOverwritePolicy_def)
  have none: "readOverwritePolicyFromCustom None = None" "readOverwritePolicyFromEnv None = None"
    by (simp_all add: readOverwritePolicyFromCustom_def readOverwritePolicyFromEnv_def Let_def
        trim_def toLowerCase_def)
  have dflt: "readOverwritePolicyFromCustom configFile = None \<and> readOverwritePolicyFromEnv envValue = None \<longrightarrow>
            runOverwritePolicy configFile envValue stdinIsTTY stdoutIsTTY =
              (if stdinIsTTY \<and> stdoutIsTTY then Ask else Never)" for configFile envValue
    by (simp add: runOverwritePolicy_def getOverwritePolicy_def)
  have dflt0: "runOverwritePolicy None None stdinIsTTY stdoutIsTTY =
           (if stdinIsTTY \<and> stdoutIsTTY then Ask else Never)"
    using dflt [of None None] none by blast
  from custom get run env fall none dflt dflt0 show ?thesis by (intro conjI)
qed


theorem overwrite_policy_aliases_witness:
  "readOverwritePolicyFromCustom (Some configText) = Some Always \<and>
   getOverwritePolicy (Some configText) (Some (asc ''never'')) False = Always \<and>
   runOverwritePolicy (Some configText) (Some (asc ''never'')) True True = Always \<and>
   readOverwritePolicyFromEnv (Some ([SPACE, SPACE] @ asc ''YeS'' @ [SPACE])) = Some Always \<and>
   getOverwritePolicy None (Some ([SPACE, SPACE] @ asc ''YeS'' @ [SPACE])) False = Always \<and>
   runOverwritePolicy None None True True = Ask \<and>
   runOverwritePolicy None None True False = Never"
proof -
  have entry: "(asc ''yes'', Always) \<in> set policyAliases" by (simp add: policyAliases_def)
  have variant: "sameIgnoringCase (asc ''YeS'') (asc ''yes'')"
    by (simp add: sameIgnoringCase_def upperAscii_def)
  have key: "sameIgnoringCase (asc ''AiSummary_Overwrite_Existing'') POLICY_KEY"
    by (simp add: sameIgnoringCase_def upperAscii_def)
  have sep: "COLON = COLON \<or> COLON = (0x3D::nat)" by simp
  have ws: "list_all isSpace [SPACE, SPACE]" "list_all isSpace [SPACE]" "list_all isSpace [0x09]"
    by (simp_all add: isSpace_def)
  have ws5: "list_all (\<lambda>c. isSpace c \<and> \<not> isLineTerminator c) [SPACE]"
    by (simp add: isSpace_def isLineTerminator_def)
  have pre1: "asc ''// settings'' @ [LF] @ asc ''export default {}'' @ [LF] = [] \<or>
              isLineTerminator (last (asc ''// settings'' @ [LF] @ asc ''export default {}'' @ [LF]))"
    by (simp add: isLineTerminator_def)
  have pre2: "\<not> occursIgnoringCase POLICY_KEY (asc ''// settings'' @ [LF] @ asc ''export default {}'' @ [LF])"
    by (simp add: startsWithCI_def upperAscii_def)
  have rest: "[LF] @ asc ''// end'' = [] \<or> isLineTerminator (hd ([LF] @ asc ''// end''))"
    by (simp add: isLineTerminator_def)
  note inst = overwrite_policy_aliases [OF entry variant key sep ws(1) ws(2) ws(2) ws(3) ws5 pre1 pre2 rest
      configText_def]
  from inst [of "Some (asc ''never'')" False True True None]
       inst [of "Some (asc ''never'')" False True False None]
  show ?thesis by simp
qed

section \<open>Evaluation on the example documents\<close>

text \<open>The definitions that the simplifier unfolds to run the model on a text.\<close>
lemmas regex_defs = mFence_def mInlineCode_def mImage_def mLink_def mEmphasis_def
  mDoubleUnderscore_def mUnderscore_def mHeading_def mQuote_def mBullet_def mNumbered_def
  mTag_def mNewlines_def startsWith_def atLineStart_def isLineTerminator_def isBlank_def
  isDigit_def isWord_def Let_def

lemmas score_defs = codeScore_def looksLikeCode_def mInlineCode1_def mKeyword_def keywordAt_def
  codeKeywords_def mArrow_def mDotted_def clsStructural_def

section \<open>Verification: processing one document\<close>

lemma utf8Text_plain:
  "\<forall>c \<in> set s. \<not> isHighSurrogate c \<and> \<not> isLowSurrogate c \<Longrightarrow> utf8Text s = s"
  by (induction s rule: utf8Text.induct) auto

lemma processOne_proceeds:
  assumes "fs path = Some content"
    and "splitFrontmatterAndBody content = \<lparr>sr_frontmatter = fm, sr_body = body\<rparr>"
    and "\<not> hasSummaryInFrontmatter fm \<or> overwritePolicy env = Always \<or>
         (overwritePolicy env = Ask \<and> promptYesNo answer False)"
    and "limitBody (extractBodyOnly content) limit = limited"
    and "readTitleFromFrontmatter fm = title"
    and "(if truthy (orElse (cfgApi (settings env)) (envApi (settings env)))
          then callSummaryAPI (settings env) (fetch env) title
                 (if cleanBeforeAPI env then sanitizeBodyForAPI limited else limited) limit
          else None) = apiSummary"
  shows "processOne env answer fs path limit =
         \<lparr>files = fs(path \<mapsto> utf8Text (upsertSummaryInFrontmatter fm (generateSummary apiSummary title limited) @ body)),
          prompted = (hasSummaryInFrontmatter fm \<and> overwritePolicy env = Ask)\<rparr>"
proof -
  from assms(3) have go: "\<not> (hasSummaryInFrontmatter fm \<and> overwritePolicy env = Never)"
    "\<not> (hasSummaryInFrontmatter fm \<and> overwritePolicy env = Ask \<and> \<not> promptYesNo answer False)"
    by auto
  show ?thesis
    unfolding processOne_def Let_def assms(1) option.case assms(2) split_result.simps
      assms(4) assms(5) assms(6)
    using go by auto
qed

text \<open>
  C6. For a document that can be read and whose front matter holds a \<open>summary\<close> key:
  with the policy \<open>never\<close> the files are left as they are and nothing is asked; with
  \<open>ask\<close> the prompt is shown and, when the trimmed lower-cased answer is neither \<open>y\<close> nor
  \<open>yes\<close> (the empty answer among them: the default is no), the files are left as they
  are; with \<open>always\<close> nothing is asked and the file is replaced by the new front matter
  followed by the body, as written in UTF-8.
\<close>
theorem overwrite_policy_matrix:
  assumes "fs path = Some content"
    and "hasSummaryInFrontmatter (sr_frontmatter (splitFrontmatterAndBody content))"
  shows "(overwritePolicy env = Never \<longrightarrow>
            processOne env answer fs path limit = \<lparr>files = fs, prompted = False\<rparr>) \<and>
         (overwritePolicy env = Ask \<and> toLowerCase (trim answer) \<noteq> asc ''y'' \<and>
            toLowerCase (trim answer) \<noteq> asc ''yes'' \<longrightarrow>
            processOne env answer fs path limit = \<lparr>files = fs, prompted = True\<rparr>) \<and>
         (overwritePolicy env = Ask \<longrightarrow>
            processOne env [] fs path limit = \<lparr>files = fs, prompted = True\<rparr>) \<and>
         (overwritePolicy env = Always \<longrightarrow>
            \<not> prompted (processOne env answer fs path limit) \<and>
            (\<exists>summary. files (processOne env answer fs path limit) =
               fs(path \<mapsto> utf8Text (upsertSummaryInFrontmatter
                           (sr_frontmatter (splitFrontmatterAndBody content)) summary @
                         sr_body (splitFrontmatterAndBody content)))))"
proof -
  have no: "toLowerCase (trim answer) \<noteq> asc ''y'' \<and> toLowerCase (trim answer) \<noteq> asc ''yes''
            \<Longrightarrow> \<not> promptYesNo answer False" for answer
    by (simp add: promptYesNo_def Let_def)
  have empty: "\<not> promptYesNo [] False"
    by (simp add: promptYesNo_def Let_def trim_def toLowerCase_def)
  have never: "overwritePolicy env = Never \<longrightarrow>
            processOne env answer fs path limit = \<lparr>files = fs, prompted = False\<rparr>"
    using assms by (simp add: processOne_def Let_def)
  have ask: "overwritePolicy env = Ask \<and> toLowerCase (trim answer) \<noteq> asc ''y'' \<and>
            toLowerCase (trim answer) \<noteq> asc ''yes'' \<longrightarrow>
            processOne env answer fs path limit = \<lparr>files = fs, prompted = True\<rparr>"
    using assms no [of answer] by (simp add: processOne_def Let_def)
  have ask0: "overwritePolicy env = Ask \<longrightarrow>
            processOne env [] fs path limit = \<lparr>files = fs, prompted = True\<rparr>"
    using assms empty by (simp add: processOne_def Let_def)
  have always: "overwritePolicy env = Always \<longrightarrow>
            \<not> prompted (processOne env answer fs path limit) \<and>
            (\<exists>summary. files (processOne env answer fs path limit) =
               fs(path \<mapsto> utf8Text (upsertSummaryInFrontmatter
                           (sr_frontmatter (splitFrontmatterAndBody content)) summary @
                         sr_body (splitFrontmatterAndBody content))))"
  proof
    assume a: "overwritePolicy env = Always"
    obtain fm body where sp: "splitFrontmatterAndBody content = \<lparr>sr_frontmatter = fm, sr_body = body\<rparr>"
      by (cases "splitFrontmatterAndBody content") auto
    have "processOne env answer fs path limit =
         \<lparr>files = fs(path \<mapsto> utf8Text (upsertSummaryInFrontmatter fm
              (generateSummary
                (if truthy (orElse (cfgApi (settings env)) (envApi (settings env)))
                 then callSummaryAPI (settings env) (fetch env) (readTitleFromFrontmatter fm)
                   (if cleanBeforeAPI env then sanitizeBodyForAPI (limitBody (extractBodyOnly content) limit)
                    else limitBody (extractBodyOnly content) limit) limit
                 else None)
                (readTitleFromFrontmatter fm) (limitBody (extractBodyOnly content) limit)) @ body)),
          prompted = (hasSummaryInFrontmatter fm \<and> overwritePolicy env = Ask)\<rparr>"
      using assms(1) sp a by (intro processOne_proceeds) simp_all
    then show "\<not> prompted (processOne env answer fs path limit) \<and>
            (\<exists>summary. files (processOne env answer fs path limit) =
               fs(path \<mapsto> utf8Text (upsertSummaryInFrontmatter
                           (sr_frontmatter (splitFrontmatterAndBody content)) summary @
                         sr_body (splitFrontmatterAndBody content))))"
      using a sp by auto
  qed
  from never ask ask0 always show ?thesis by (intro conjI)
qed

lemmas split_defs = splitFrontmatterAndBody_def extractBodyOnly_def frontmatterMatch_def fmOpen_def
  fmCloseAt_def fmLookahead_def stripBOM_def stripGap_def trimStart_def startsWith_def isSpace_def Let_def

lemmas title_defs = readTitleFromFrontmatter_def titleCaptureFrom_def titleTailOK_def skipQuote_def
  isQuote_def startsWith_def trim_def isSpace_def

lemma canonical_steps2:
  assumes "unifyPunctuation t = u"
    and "removeSymbols u = r"
    and "mergeClauses r = merged"
    and "int (length merged) \<le> max 1 (maxLen - 1)"
    and "stripTrailing clsTrailing merged = core"
    and "\<not> endsWith core CJK_STOP"
  shows "toDeclarativeSentence t maxLen = core @ [CJK_STOP]"
  using assms by (simp add: toDeclarativeSentence_def Let_def)

lemmas merge_defs = mergeClauses_def splitRuns_def trim_def stripTrailing_def endsWith_def
  removeSymbols_def removeClass_def unifyPunctuation_def

lemma doc1_split:
  "splitFrontmatterAndBody docWithSummary =
     \<lparr>sr_frontmatter = asc ''---'' @ [LF] @ asc ''summary: '' @ [DQUOTE] @ asc ''x'' @ [DQUOTE, LF] @ asc ''---'',
      sr_body = asc ''B''\<rparr>"
  by (simp add: docWithSummary_def split_defs)

lemma doc1_body: "limitBody (extractBodyOnly docWithSummary) 8000 = asc ''B''"
  by (simp add: docWithSummary_def split_defs limitBody_def)

lemma doc1_has:
  "hasSummaryInFrontmatter (asc ''---'' @ [LF] @ asc ''summary: '' @ [DQUOTE] @ asc ''x'' @ [DQUOTE, LF] @ asc ''---'')"
  by (simp add: hasSummaryInFrontmatter_def mSummaryKey_def isSummaryLine_def startsWithCI_def
      startsWith_def upperAscii_def isSpace_def Let_def)

lemma doc1_title:
  "readTitleFromFrontmatter (asc ''---'' @ [LF] @ asc ''summary: '' @ [DQUOTE] @ asc ''x'' @ [DQUOTE, LF] @ asc ''---'') = []"
  by (simp add: title_defs)

lemma canon_B: "toDeclarativeSentence (asc ''B'') SUMMARY_MAX_LEN = asc ''B'' @ [CJK_STOP]"
  by (rule canonical_steps2 [where u = "asc ''B''" and r = "asc ''B''" and merged = "asc ''B''"])
     (simp_all add: merge_defs class_defs)

lemma canon_B_stop: "toDeclarativeSentence (asc ''B'' @ [CJK_STOP]) SUMMARY_MAX_LEN = asc ''B'' @ [CJK_STOP]"
  by (rule canonical_steps2 [where u = "asc ''B'' @ [CJK_STOP]" and r = "asc ''B'' @ [CJK_STOP]"
        and merged = "asc ''B''"])
     (simp_all add: merge_defs class_defs)

lemma source_none: "summarySource None = FromLocal"
  by (simp add: summarySource_def sanitizeSummaryText_def)

lemma strip_B: "stripMarkdown (asc ''B'') = asc ''B''"
  by (simp add: stripMarkdown_def regex_defs trim_def isSpace_def)

lemma doc1_summary: "generateSummary None [] (asc ''B'') = asc ''B'' @ [CJK_STOP]"
  using source_none strip_B canon_B canon_B_stop
  by (simp add: generateSummary_def localGenerateSummary_def Let_def)

lemma doc1_upsert:
  "upsertSummaryInFrontmatter
     (asc ''---'' @ [LF] @ asc ''summary: '' @ [DQUOTE] @ asc ''x'' @ [DQUOTE, LF] @ asc ''---'')
     (asc ''B'' @ [CJK_STOP]) =
   asc ''---'' @ [LF] @ asc ''summary: '' @ [DQUOTE] @ asc ''B'' @ [CJK_STOP, DQUOTE, LF] @ asc ''---'' @ [LF]"
  by (simp add: upsert_defs line_defs)

lemma doc1_always:
  "processOne (localEnv Always) [] [''f'' \<mapsto> docWithSummary] ''f'' 8000 =
     \<lparr>files = [''f'' \<mapsto> asc ''---'' @ [LF] @ asc ''summary: '' @ [DQUOTE] @ asc ''B'' @
                           [CJK_STOP, DQUOTE, LF] @ asc ''---'' @ [LF] @ asc ''B''],
      prompted = False\<rparr>"
proof -
  have "processOne (localEnv Always) [] [''f'' \<mapsto> docWithSummary] ''f'' 8000 =
     \<lparr>files = [''f'' \<mapsto> docWithSummary](''f'' \<mapsto> utf8Text (upsertSummaryInFrontmatter
        (asc ''---'' @ [LF] @ asc ''summary: '' @ [DQUOTE] @ asc ''x'' @ [DQUOTE, LF] @ asc ''---'')
        (generateSummary None [] (asc ''B'')) @ asc ''B'')),
      prompted = (hasSummaryInFrontmatter
        (asc ''---'' @ [LF] @ asc ''summary: '' @ [DQUOTE] @ asc ''x'' @ [DQUOTE, LF] @ asc ''---'') \<and>
        overwritePolicy (localEnv Always) = Ask)\<rparr>"
    by (rule processOne_proceeds [OF _ doc1_split _ doc1_body doc1_title])
       (simp_all add: localEnv_def noEndpoint_def truthy_def orElse_def)
  then show ?thesis
    using doc1_summary doc1_upsert
    by (simp add: localEnv_def isHighSurrogate_def isLowSurrogate_def)
qed

theorem overwrite_policy_matrix_witness:
  "processOne (localEnv Never) [] [''f'' \<mapsto> docWithSummary] ''f'' 8000 =
     \<lparr>files = [''f'' \<mapsto> docWithSummary], prompted = False\<rparr> \<and>
   processOne (localEnv Ask) (asc ''no'') [''f'' \<mapsto> docWithSummary] ''f'' 8000 =
     \<lparr>files = [''f'' \<mapsto> docWithSummary], prompted = True\<rparr> \<and>
   processOne (localEnv Ask) [] [''f'' \<mapsto> docWithSummary] ''f'' 8000 =
     \<lparr>files = [''f'' \<mapsto> docWithSummary], prompted = True\<rparr> \<and>
   processOne (localEnv Always) [] [''f'' \<mapsto> docWithSummary] ''f'' 8000 =
     \<lparr>files = [''f'' \<mapsto> asc ''---'' @ [LF] @ asc ''summary: '' @ [DQUOTE] @ asc ''B'' @
                           [CJK_STOP, DQUOTE, LF] @ asc ''---'' @ [LF] @ asc ''B''],
      prompted = False\<rparr>"
proof -
  have rd: "[''f'' \<mapsto> docWithSummary] ''f'' = Some docWithSummary" by simp
  have has: "hasSummaryInFrontmatter (sr_frontmatter (splitFrontmatterAndBody docWithSummary))"
    using doc1_has by (simp add: doc1_split)
  have no: "toLowerCase (trim (asc ''no'')) \<noteq> asc ''y'' \<and> toLowerCase (trim (asc ''no'')) \<noteq> asc ''yes''"
    by (simp add: toLowerCase_def lowerChar_def trim_def isSpace_def)
  have p: "overwritePolicy (localEnv Never) = Never" "overwritePolicy (localEnv Ask) = Ask"
    by (simp_all add: localEnv_def)
  note matrix = overwrite_policy_matrix [where fs = "[''f'' \<mapsto> docWithSummary]" and path = "''f''"
      and content = docWithSummary, OF rd has]
  from matrix [of "localEnv Never" "[]" 8000] p
  have 1: "processOne (localEnv Never) [] [''f'' \<mapsto> docWithSummary] ''f'' 8000 =
     \<lparr>files = [''f'' \<mapsto> docWithSummary], prompted = False\<rparr>" by blast
  from matrix [of "localEnv Ask" "asc ''no''" 8000] p no
  have 2: "processOne (localEnv Ask) (asc ''no'') [''f'' \<mapsto> docWithSummary] ''f'' 8000 =
     \<lparr>files = [''f'' \<mapsto> docWithSummary], prompted = True\<rparr>" by blast
  from matrix [of "localEnv Ask" "asc ''no''" 8000] p
  have 3: "processOne (localEnv Ask) [] [''f'' \<mapsto> docWithSummary] ''f'' 8000 =
     \<lparr>files = [''f'' \<mapsto> docWithSummary], prompted = True\<rparr>" by blast
  from 1 2 3 doc1_always show ?thesis by (intro conjI)
qed

subsection \<open>The round trip on two documents\<close>

theorem split_then_rejoin_witness:
  "\<not> hasSecondBlock docWithBOM \<and>
   splitFrontmatterAndBody docWithBOM =
     \<lparr>sr_frontmatter = asc ''---'' @ [LF] @ asc ''k: v'' @ [LF] @ asc ''---'', sr_body = asc ''B''\<rparr> \<and>
   docWithBOM = [0xFEFF] @ (asc ''---'' @ [LF] @ asc ''k: v'' @ [LF] @ asc ''---'') @ [LF, LF] @ asc ''B'' \<and>
   (\<exists>lead gap k.
      docWithBOM = lead @ sr_frontmatter (splitFrontmatterAndBody docWithBOM) @ gap @
                   sr_body (splitFrontmatterAndBody docWithBOM) \<and>
      list_all isSpace lead \<and> (gap = replicate k LF \<or> gap = CR # replicate k LF))"
proof -
  have one: "\<not> hasSecondBlock docWithBOM"
    by (simp add: hasSecondBlock_def docWithBOM_def split_defs)
  have "splitFrontmatterAndBody docWithBOM =
     \<lparr>sr_frontmatter = asc ''---'' @ [LF] @ asc ''k: v'' @ [LF] @ asc ''---'', sr_body = asc ''B''\<rparr>"
    by (simp add: docWithBOM_def split_defs)
  moreover have "docWithBOM = [0xFEFF] @ (asc ''---'' @ [LF] @ asc ''k: v'' @ [LF] @ asc ''---'') @ [LF, LF] @ asc ''B''"
    by (simp add: docWithBOM_def)
  moreover have "\<exists>lead gap k.
      docWithBOM = lead @ sr_frontmatter (splitFrontmatterAndBody docWithBOM) @ gap @
                   sr_body (splitFrontmatterAndBody docWithBOM) \<and>
      list_all isSpace lead \<and> (gap = replicate k LF \<or> gap = CR # replicate k LF)"
    using split_then_rejoin [OF one] unfolding Let_def by blast
  ultimately show ?thesis using one by (intro conjI)
qed

theorem split_then_rejoin_counterexample:
  "\<not> hasSecondBlock (asc '' B'') \<and> \<not> hasSecondBlock docPlain \<and>
   splitFrontmatterAndBody (asc '' B'') = \<lparr>sr_frontmatter = [], sr_body = asc ''B''\<rparr> \<and>
   \<not> sameUpToTrailingNewlines
        (sr_frontmatter (splitFrontmatterAndBody (asc '' B'')) @ sr_body (splitFrontmatterAndBody (asc '' B'')))
        (asc '' B'') \<and>
   splitFrontmatterAndBody docPlain =
     \<lparr>sr_frontmatter = asc ''---'' @ [LF] @ asc ''k: v'' @ [LF] @ asc ''---'', sr_body = asc ''B''\<rparr> \<and>
   \<not> sameUpToTrailingNewlines
        (sr_frontmatter (splitFrontmatterAndBody docPlain) @ sr_body (splitFrontmatterAndBody docPlain))
        docPlain"
proof -
  have 1: "splitFrontmatterAndBody (asc '' B'') = \<lparr>sr_frontmatter = [], sr_body = asc ''B''\<rparr>"
    by (simp add: split_defs)
  have 2: "splitFrontmatterAndBody docPlain =
     \<lparr>sr_frontmatter = asc ''---'' @ [LF] @ asc ''k: v'' @ [LF] @ asc ''---'', sr_body = asc ''B''\<rparr>"
    by (simp add: docPlain_def split_defs)
  have 3: "\<not> sameUpToTrailingNewlines ([] @ asc ''B'') (asc '' B'')"
    by (simp add: sameUpToTrailingNewlines_def stripTrailing_def isNewline_def)
  have 4: "\<not> sameUpToTrailingNewlines
        ((asc ''---'' @ [LF] @ asc ''k: v'' @ [LF] @ asc ''---'') @ asc ''B'') docPlain"
    by (simp add: docPlain_def sameUpToTrailingNewlines_def stripTrailing_def isNewline_def)
  have 5: "\<not> hasSecondBlock (asc '' B'')" by (simp add: hasSecondBlock_def split_defs)
  have 6: "\<not> hasSecondBlock docPlain" by (simp add: hasSecondBlock_def docPlain_def split_defs)
  show ?thesis unfolding 1 2 split_result.simps using 3 4 5 6 by (intro conjI) simp_all
qed

subsection \<open>Answers of the endpoint that look like code\<close>

lemma response_clean: "cleanSummaryText codeResponse = asc ''a function here''"
  by (simp add: codeResponse_def cleanSummaryText_def regex_defs trim_def isSpace_def)

lemma response_canon:
  "toDeclarativeSentence (asc ''a function here'') SUMMARY_MAX_LEN = asc ''afunctionhere'' @ [CJK_STOP]"
  by (rule canonical_steps2 [where u = "asc ''a function here''" and r = "asc ''afunctionhere''"
        and merged = "asc ''afunctionhere''"])
     (simp_all add: merge_defs class_defs)

lemma response_canon_again: "toDeclarativeSentence (asc ''afunctionhere'' @ [CJK_STOP]) SUMMARY_MAX_LEN = asc ''afunctionhere'' @ [CJK_STOP]"
  by (rule canonical_steps2 [where u = "asc ''afunctionhere'' @ [CJK_STOP]" and r = "asc ''afunctionhere'' @ [CJK_STOP]"
        and merged = "asc ''afunctionhere''"])
     (simp_all add: merge_defs class_defs)

lemma response_sanitized: "sanitizeSummaryText codeResponse SUMMARY_MAX_LEN = asc ''afunctionhere'' @ [CJK_STOP]"
  using response_clean response_canon by (simp add: sanitizeSummaryText_def codeResponse_def)

lemma response_signals:
  "regexTest mFence None codeResponse \<and> regexTest mKeyword None codeResponse"
  by (simp add: codeResponse_def regex_defs score_defs)

lemma response_not_code: "\<not> looksLikeCode (asc ''afunctionhere'' @ [CJK_STOP])"
  by (simp add: regex_defs score_defs)

lemma response_source: "summarySource (Some codeResponse) = FromAPI"
  using response_sanitized response_not_code by (simp add: summarySource_def)

lemma response_summary: "generateSummary (Some codeResponse) title limitedBody = asc ''afunctionhere'' @ [CJK_STOP]"
  using response_source response_sanitized response_canon_again by (simp add: generateSummary_def)

lemma response_call:
  "(if truthy (orElse (cfgApi (settings (endpointEnv codeResponse))) (envApi (settings (endpointEnv codeResponse))))
    then callSummaryAPI (settings (endpointEnv codeResponse)) (fetch (endpointEnv codeResponse)) []
           (if cleanBeforeAPI (endpointEnv codeResponse) then sanitizeBodyForAPI (asc ''Body text.'')
            else asc ''Body text.'') 8000
    else None) = Some codeResponse"
  by (simp add: callSummaryAPI_def buildRequest_def endpointEnv_def truthy_def orElse_def Let_def
      codeResponse_def trim_def isSpace_def)

lemma answer_clean: "cleanSummaryText codeAnswer = codeAnswer"
  by (simp add: codeAnswer_def cleanSummaryText_def regex_defs trim_def isSpace_def)

lemma answer_canon:
  "toDeclarativeSentence codeAnswer SUMMARY_MAX_LEN =
   (asc ''consta1'' @ [CJK_COMMA] @ asc ''returna'') @ [CJK_STOP]"
  unfolding codeAnswer_def
  by (rule canonical_steps2 [where u = "asc ''const a = 1'' @ [CJK_STOP] @ asc '' return a'' @ [CJK_STOP]"
        and r = "asc ''consta1'' @ [CJK_STOP] @ asc ''returna'' @ [CJK_STOP]"
        and merged = "asc ''consta1'' @ [CJK_COMMA] @ asc ''returna''"])
     (simp_all add: merge_defs class_defs)

lemma answer_canon_again:
  "toDeclarativeSentence (asc ''consta1'' @ [CJK_COMMA] @ asc ''returna'' @ [CJK_STOP]) SUMMARY_MAX_LEN =
   (asc ''consta1'' @ [CJK_COMMA] @ asc ''returna'') @ [CJK_STOP]"
  by (rule canonical_steps2 [where u = "asc ''consta1'' @ [CJK_COMMA] @ asc ''returna'' @ [CJK_STOP]"
        and r = "asc ''consta1'' @ [CJK_COMMA] @ asc ''returna'' @ [CJK_STOP]"
        and merged = "asc ''consta1'' @ [CJK_COMMA] @ asc ''returna''"])
     (simp_all add: merge_defs class_defs)

lemma answer_sanitized:
  "sanitizeSummaryText codeAnswer SUMMARY_MAX_LEN =
   asc ''consta1'' @ [CJK_COMMA] @ asc ''returna'' @ [CJK_STOP]"
  using answer_clean answer_canon by (simp add: sanitizeSummaryText_def codeAnswer_def)

lemma answer_not_code:
  "\<not> looksLikeCode (asc ''consta1'' @ [CJK_COMMA] @ asc ''returna'' @ [CJK_STOP])"
  by (simp add: regex_defs score_defs)

lemma answer_source: "summarySource (Some codeAnswer) = FromAPI"
  using answer_sanitized answer_not_code by (simp add: summarySource_def)

lemma answer_summary:
  "generateSummary (Some codeAnswer) title limitedBody =
   asc ''consta1'' @ [CJK_COMMA] @ asc ''returna'' @ [CJK_STOP]"
  using answer_source answer_sanitized answer_canon_again by (simp add: generateSummary_def)

text \<open>
  C5. The claim has every answer with a fenced block and a keyword dropped for the local
  summary. The answer \<open>codeResponse\<close> has both and looks like code, with status 2xx; the
  scorer is given its sanitized text, in which the block is gone and the keyword, the
  spaces around it removed, is no word of its own, so the answer is taken and written as
  the summary. In the same way the answer \<open>codeAnswer\<close>, two statements with two
  keywords, is taken.
\<close>
theorem fenced_answer_written_as_summary:
  "regexTest mFence None codeResponse \<and> regexTest mKeyword None codeResponse \<and>
   looksLikeCode codeResponse \<and>
   summarySource (Some codeResponse) = FromAPI \<and>
   processOne (endpointEnv codeResponse) [] [''f'' \<mapsto> asc ''Body text.''] ''f'' 8000 =
     \<lparr>files = [''f'' \<mapsto> asc ''---'' @ [LF] @ asc ''summary: '' @ [DQUOTE] @ asc ''afunctionhere'' @
                           [CJK_STOP, DQUOTE, LF] @ asc ''---'' @ [LF] @ asc ''Body text.''],
      prompted = False\<rparr> \<and>
   looksLikeCode codeAnswer \<and>
   summarySource (Some codeAnswer) = FromAPI \<and>
   generateSummary (Some codeAnswer) [] (asc ''Body text.'') =
     asc ''consta1'' @ [CJK_COMMA] @ asc ''returna'' @ [CJK_STOP]"
proof -
  have look: "looksLikeCode codeResponse"
    by (simp add: codeResponse_def regex_defs score_defs)
  have look2: "looksLikeCode codeAnswer"
    by (simp add: codeAnswer_def regex_defs score_defs)
  have sp: "splitFrontmatterAndBody (asc ''Body text.'') = \<lparr>sr_frontmatter = [], sr_body = asc ''Body text.''\<rparr>"
    by (simp add: split_defs)
  have lb: "limitBody (extractBodyOnly (asc ''Body text.'')) 8000 = asc ''Body text.''"
    by (simp add: split_defs limitBody_def)
  have ti: "readTitleFromFrontmatter [] = []" by (simp add: title_defs)
  have up: "upsertSummaryInFrontmatter [] (asc ''afunctionhere'' @ [CJK_STOP]) =
      asc ''---'' @ [LF] @ asc ''summary: '' @ [DQUOTE] @ asc ''afunctionhere'' @ [CJK_STOP, DQUOTE, LF] @ asc ''---'' @ [LF]"
    by (simp add: upsert_defs)
  have "processOne (endpointEnv codeResponse) [] [''f'' \<mapsto> asc ''Body text.''] ''f'' 8000 =
     \<lparr>files = [''f'' \<mapsto> asc ''Body text.''](''f'' \<mapsto> utf8Text (upsertSummaryInFrontmatter []
        (generateSummary (Some codeResponse) [] (asc ''Body text.'')) @ asc ''Body text.'')),
      prompted = (hasSummaryInFrontmatter [] \<and> overwritePolicy (endpointEnv codeResponse) = Ask)\<rparr>"
    by (rule processOne_proceeds [OF _ sp _ lb ti response_call])
       (simp_all add: hasSummaryInFrontmatter_def)
  then have "processOne (endpointEnv codeResponse) [] [''f'' \<mapsto> asc ''Body text.''] ''f'' 8000 =
     \<lparr>files = [''f'' \<mapsto> asc ''---'' @ [LF] @ asc ''summary: '' @ [DQUOTE] @ asc ''afunctionhere'' @
                           [CJK_STOP, DQUOTE, LF] @ asc ''---'' @ [LF] @ asc ''Body text.''],
      prompted = False\<rparr>"
    using up
    by (simp add: response_summary hasSummaryInFrontmatter_def isHighSurrogate_def isLowSurrogate_def)
  with response_signals look response_source look2 answer_source answer_summary
  show ?thesis by (intro conjI) simp_all
qed

section \<open>Verification: nothing left to escape\<close>

subsection \<open>Line feeds\<close>

lemma replaceAll_mNewlines_no_LF: "LF \<notin> set (replaceAll mNewlines prev s)"
proof (induction mNewlines prev s rule: replaceAll.induct)
  case (1 prev)
  then show ?case by simp
next
  case (2 prev c cs)
  show ?case
  proof (cases "mNewlines prev (c # cs)")
    case None
    then have "c \<noteq> LF" by (auto simp: mNewlines_def Let_def startsWith_def split: if_splits)
    with 2(1) [OF None] None show ?thesis by simp
  next
    case (Some r)
    obtain n rep where r: "(n, rep) = r" by (cases r) auto
    with Some have rep: "rep = [SPACE]" by (auto simp: mNewlines_def Let_def split: if_splits)
    have m: "mNewlines prev (c # cs) = Some (n, rep)" using Some r by simp
    have "LF \<notin> set (replaceAll mNewlines (Some ((c # cs) ! (n - 1))) (drop (n - 1) cs))"
      by (rule 2(2) [OF Some r])
    then show ?thesis using rep by (simp add: m)
  qed
qed

lemma collapsed_no_LF:
  "LF \<notin> set (trim (replaceRuns2 isSpace [SPACE] (replaceAll mNewlines None z)))"
proof
  assume "LF \<in> set (trim (replaceRuns2 isSpace [SPACE] (replaceAll mNewlines None z)))"
  then have "LF \<in> set (replaceRuns2 isSpace [SPACE] (replaceAll mNewlines None z))" by (rule set_trim)
  then have "LF \<in> set (replaceAll mNewlines None z)" by (auto dest: set_replaceRuns2)
  then show False using replaceAll_mNewlines_no_LF by blast
qed

lemma canonical_LF: "LF \<in> set (toDeclarativeSentence t m) \<Longrightarrow> LF \<in> set t"
  using set_toDeclarativeSentence [of LF t m] by auto

lemma cleanSummaryText_no_LF: "LF \<notin> set (cleanSummaryText raw)"
  unfolding cleanSummaryText_def Let_def by (rule collapsed_no_LF)

lemma sanitize_no_LF: "LF \<notin> set (sanitizeSummaryText raw m)"
  using canonical_LF [of "cleanSummaryText raw" m] cleanSummaryText_no_LF [of raw]
  by (auto simp: sanitizeSummaryText_def)

lemma stripMarkdown_no_LF: "LF \<notin> set (stripMarkdown body)"
  unfolding stripMarkdown_def by (rule collapsed_no_LF)

lemma generateSummary_LF:
  assumes "LF \<in> set (generateSummary apiSummary title limitedBody)"
  shows "LF \<in> set title \<and> stripMarkdown limitedBody = [] \<and> summarySource apiSummary = FromLocal"
proof (cases "summarySource apiSummary = FromLocal")
  case True
  with assms have "LF \<in> set (localGenerateSummary title limitedBody SUMMARY_MAX_LEN)"
    by (auto simp: generateSummary_def Let_def dest: canonical_LF)
  then have "LF \<in> set (if stripMarkdown limitedBody = []
                        then (if title \<noteq> [] then title else placeholderSentence)
                        else stripMarkdown limitedBody)"
    by (auto simp: localGenerateSummary_def Let_def dest: canonical_LF split: if_splits)
  then have "LF \<in> set title \<and> stripMarkdown limitedBody = []"
    using stripMarkdown_no_LF [of limitedBody]
    by (auto simp: placeholderSentence_def split: if_splits)
  with True show ?thesis by simp
next
  case False
  with assms have "LF \<in> set (sanitizeSummaryText (case apiSummary of None \<Rightarrow> [] | Some s \<Rightarrow> s) SUMMARY_MAX_LEN)"
    by (auto simp: generateSummary_def Let_def dest: canonical_LF)
  then show ?thesis using sanitize_no_LF by blast
qed

text \<open>
  The escaping itself is sound: the result of \<open>toDeclarativeSentence\<close> holds no double
  quote and no backslash, for every input, so \<open>escapeYaml\<close> only puts the summary that
  \<open>processOne\<close> writes between two double quotes. The canonicalizer keeps a single line
  feed of its input; the generated summary holds no line feed when the title read from
  the front matter holds none.
\<close>
lemma generated_summary_needs_no_escape:
  "DQUOTE \<notin> set (toDeclarativeSentence t maxLen) \<and>
   BACKSLASH \<notin> set (toDeclarativeSentence t maxLen) \<and>
   DQUOTE \<notin> set (generateSummary apiSummary title limitedBody) \<and>
   BACKSLASH \<notin> set (generateSummary apiSummary title limitedBody) \<and>
   escapeYaml (generateSummary apiSummary title limitedBody) =
     [DQUOTE] @ generateSummary apiSummary title limitedBody @ [DQUOTE] \<and>
   (LF \<notin> set t \<longrightarrow> LF \<notin> set (toDeclarativeSentence t maxLen)) \<and>
   (LF \<notin> set title \<longrightarrow> LF \<notin> set (generateSummary apiSummary title limitedBody))"
proof -
  have q: "DQUOTE \<notin> set (toDeclarativeSentence s m)" for s m
    using set_toDeclarativeSentence [of DQUOTE s m] by (auto simp: clsSymbol_def)
  have b: "BACKSLASH \<notin> set (toDeclarativeSentence s m)" for s m
    using set_toDeclarativeSentence [of BACKSLASH s m] by (auto simp: clsSlash_def)
  obtain s where s: "generateSummary apiSummary title limitedBody = toDeclarativeSentence s SUMMARY_MAX_LEN"
    using generateSummary_canonical by blast
  have e: "escapeYaml (generateSummary apiSummary title limitedBody) =
     [DQUOTE] @ generateSummary apiSummary title limitedBody @ [DQUOTE]"
    unfolding s by (rule escapeYaml_plain [OF q])
  have l1: "LF \<notin> set t \<longrightarrow> LF \<notin> set (toDeclarativeSentence t maxLen)"
    using canonical_LF by blast
  have l2: "LF \<notin> set title \<longrightarrow> LF \<notin> set (generateSummary apiSummary title limitedBody)"
    using generateSummary_LF by blast
  from q [of t maxLen] b [of t maxLen] q [of s SUMMARY_MAX_LEN] b [of s SUMMARY_MAX_LEN] e l1 l2
  show ?thesis unfolding s [symmetric] by (intro conjI)
qed

subsection \<open>A title over two lines\<close>

lemma local_api:
  "(if truthy (orElse (cfgApi (settings (localEnv p))) (envApi (settings (localEnv p))))
    then callSummaryAPI (settings (localEnv p)) (fetch (localEnv p)) title
           (if cleanBeforeAPI (localEnv p) then sanitizeBodyForAPI limited else limited) limit
    else None) = None"
  by (simp add: localEnv_def noEndpoint_def truthy_def orElse_def)

lemma doc2_split:
  "splitFrontmatterAndBody docMultilineTitle =
     \<lparr>sr_frontmatter = asc ''---'' @ [LF] @ asc ''title: T'' @ [LF] @ asc ''k: v'' @ [LF] @ asc ''---'',
      sr_body = []\<rparr>"
  by (simp add: docMultilineTitle_def split_defs)

lemma doc2_body: "limitBody (extractBodyOnly docMultilineTitle) 8000 = []"
  by (simp add: docMultilineTitle_def split_defs limitBody_def)

lemma doc2_title:
  "readTitleFromFrontmatter (asc ''---'' @ [LF] @ asc ''title: T'' @ [LF] @ asc ''k: v'' @ [LF] @ asc ''---'') =
   asc ''T'' @ [LF] @ asc ''k: v''"
  by (simp add: title_defs)

lemma doc2_canon:
  "toDeclarativeSentence (asc ''T'' @ [LF] @ asc ''k: v'') SUMMARY_MAX_LEN =
   (asc ''T'' @ [LF] @ asc ''k'' @ [CJK_COLON] @ asc ''v'') @ [CJK_STOP]"
  by (rule canonical_steps2 [where u = "asc ''T'' @ [LF] @ asc ''k'' @ [CJK_COLON] @ asc '' v''"
        and r = "asc ''T'' @ [LF] @ asc ''k'' @ [CJK_COLON] @ asc ''v''"
        and merged = "asc ''T'' @ [LF] @ asc ''k'' @ [CJK_COLON] @ asc ''v''"])
     (simp_all add: merge_defs class_defs)

lemma doc2_canon_again:
  "toDeclarativeSentence (asc ''T'' @ [LF] @ asc ''k'' @ [CJK_COLON] @ asc ''v'' @ [CJK_STOP]) SUMMARY_MAX_LEN =
   (asc ''T'' @ [LF] @ asc ''k'' @ [CJK_COLON] @ asc ''v'') @ [CJK_STOP]"
  by (rule canonical_steps2 [where u = "asc ''T'' @ [LF] @ asc ''k'' @ [CJK_COLON] @ asc ''v'' @ [CJK_STOP]"
        and r = "asc ''T'' @ [LF] @ asc ''k'' @ [CJK_COLON] @ asc ''v'' @ [CJK_STOP]"
        and merged = "asc ''T'' @ [LF] @ asc ''k'' @ [CJK_COLON] @ asc ''v''"])
     (simp_all add: merge_defs class_defs)

lemma strip_empty: "stripMarkdown [] = []"
  by (simp add: stripMarkdown_def trim_def)

lemma doc2_summary:
  "generateSummary None (asc ''T'' @ [LF] @ asc ''k: v'') [] =
   asc ''T'' @ [LF] @ asc ''k'' @ [CJK_COLON] @ asc ''v'' @ [CJK_STOP]"
  using source_none strip_empty doc2_canon doc2_canon_again
  by (simp add: generateSummary_def localGenerateSummary_def Let_def)

lemma doc2_upsert:
  "upsertSummaryInFrontmatter
     (asc ''---'' @ [LF] @ asc ''title: T'' @ [LF] @ asc ''k: v'' @ [LF] @ asc ''---'')
     (asc ''T'' @ [LF] @ asc ''k'' @ [CJK_COLON] @ asc ''v'' @ [CJK_STOP]) =
   asc ''---'' @ [LF] @ asc ''title: T'' @ [LF] @ asc ''k: v'' @ [LF] @
   asc ''summary: '' @ [DQUOTE] @ asc ''T'' @ [LF] @ asc ''k'' @ [CJK_COLON] @ asc ''v'' @ [CJK_STOP, DQUOTE, LF] @
   asc ''---'' @ [LF]"
  by (simp add: upsert_defs line_defs)

text \<open>
  C9. The claim has the written summary on a single line. \<open>readTitleFromFrontmatter\<close>
  captures with \<open>[^'"]+\<close>, which also takes line feeds: a title that is not quoted comes
  back with the lines that follow it. When the body is empty \<open>localGenerateSummary\<close>
  hands this title to the canonicalizer without replacing its line feeds, as it does
  for the body and as \<open>sanitizeSummaryText\<close> does for the answer of the endpoint, and the
  value written for \<open>summary\<close> runs over two lines.
\<close>
theorem summary_over_two_lines:
  "processOne (localEnv Never) [] [''f'' \<mapsto> docMultilineTitle] ''f'' 8000 =
     \<lparr>files = [''f'' \<mapsto>
        asc ''---'' @ [LF] @ asc ''title: T'' @ [LF] @ asc ''k: v'' @ [LF] @
        asc ''summary: '' @ [DQUOTE] @ asc ''T'' @ [LF] @ asc ''k'' @ [CJK_COLON] @ asc ''v'' @ [CJK_STOP, DQUOTE, LF] @
        asc ''---'' @ [LF]],
      prompted = False\<rparr> \<and>
   LF \<in> set (generateSummary None (asc ''T'' @ [LF] @ asc ''k: v'') [])"
proof -
  have nh: "\<not> hasSummaryInFrontmatter (asc ''---'' @ [LF] @ asc ''title: T'' @ [LF] @ asc ''k: v'' @ [LF] @ asc ''---'')"
    by (simp add: hasSummaryInFrontmatter_def mSummaryKey_def isSummaryLine_def startsWithCI_def
      startsWith_def upperAscii_def isSpace_def Let_def)
  have "processOne (localEnv Never) [] [''f'' \<mapsto> docMultilineTitle] ''f'' 8000 =
     \<lparr>files = [''f'' \<mapsto> docMultilineTitle](''f'' \<mapsto> utf8Text (upsertSummaryInFrontmatter
        (asc ''---'' @ [LF] @ asc ''title: T'' @ [LF] @ asc ''k: v'' @ [LF] @ asc ''---'')
        (generateSummary None (asc ''T'' @ [LF] @ asc ''k: v'') []) @ [])),
      prompted = (hasSummaryInFrontmatter
        (asc ''---'' @ [LF] @ asc ''title: T'' @ [LF] @ asc ''k: v'' @ [LF] @ asc ''---'') \<and>
        overwritePolicy (localEnv Never) = Ask)\<rparr>"
    by (rule processOne_proceeds [OF _ doc2_split disjI1 [OF nh] doc2_body doc2_title local_api]) simp
  then have "processOne (localEnv Never) [] [''f'' \<mapsto> docMultilineTitle] ''f'' 8000 =
     \<lparr>files = [''f'' \<mapsto>
        asc ''---'' @ [LF] @ asc ''title: T'' @ [LF] @ asc ''k: v'' @ [LF] @
        asc ''summary: '' @ [DQUOTE] @ asc ''T'' @ [LF] @ asc ''k'' @ [CJK_COLON] @ asc ''v'' @ [CJK_STOP, DQUOTE, LF] @
        asc ''---'' @ [LF]],
      prompted = False\<rparr>"
    using doc2_summary doc2_upsert
    by (simp add: localEnv_def isHighSurrogate_def isLowSurrogate_def)
  moreover have "LF \<in> set (generateSummary None (asc ''T'' @ [LF] @ asc ''k: v'') [])"
    using doc2_summary by simp
  ultimately show ?thesis by (intro conjI)
qed

text \<open>
  C2. The claim has the \<open>summary\<close> entry on the line before the closing delimiter, its
  value between double quotes. The summary that the pipeline generates for the document
  above holds a line feed, and \<open>upsertSummaryInFrontmatter\<close> writes it as it is: the line
  of the key opens the quoted value and does not close it, and the line before the
  closing delimiter is the rest of the value, not the key.
\<close>
theorem summary_entry_split_over_lines:
  "generateSummary None
     (readTitleFromFrontmatter (sr_frontmatter (splitFrontmatterAndBody docMultilineTitle)))
     (limitBody (extractBodyOnly docMultilineTitle) 8000) =
     asc ''T'' @ [LF] @ asc ''k'' @ [CJK_COLON] @ asc ''v'' @ [CJK_STOP] \<and>
   splitLF (upsertSummaryInFrontmatter (sr_frontmatter (splitFrontmatterAndBody docMultilineTitle))
              (asc ''T'' @ [LF] @ asc ''k'' @ [CJK_COLON] @ asc ''v'' @ [CJK_STOP])) =
     [asc ''---'', asc ''title: T'', asc ''k: v'',
      asc ''summary: '' @ [DQUOTE] @ asc ''T'',
      asc ''k'' @ [CJK_COLON] @ asc ''v'' @ [CJK_STOP, DQUOTE],
      asc ''---'', []] \<and>
   \<not> endsWith (asc ''summary: '' @ [DQUOTE] @ asc ''T'') DQUOTE \<and>
   \<not> isSummaryLine (asc ''k'' @ [CJK_COLON] @ asc ''v'' @ [CJK_STOP, DQUOTE])"
proof -
  have g: "generateSummary None
     (readTitleFromFrontmatter (sr_frontmatter (splitFrontmatterAndBody docMultilineTitle)))
     (limitBody (extractBodyOnly docMultilineTitle) 8000) =
     asc ''T'' @ [LF] @ asc ''k'' @ [CJK_COLON] @ asc ''v'' @ [CJK_STOP]"
    by (simp only: doc2_split split_result.simps doc2_title doc2_body doc2_summary)
  have l: "splitLF (upsertSummaryInFrontmatter (sr_frontmatter (splitFrontmatterAndBody docMultilineTitle))
              (asc ''T'' @ [LF] @ asc ''k'' @ [CJK_COLON] @ asc ''v'' @ [CJK_STOP])) =
     [asc ''---'', asc ''title: T'', asc ''k: v'',
      asc ''summary: '' @ [DQUOTE] @ asc ''T'',
      asc ''k'' @ [CJK_COLON] @ asc ''v'' @ [CJK_STOP, DQUOTE],
      asc ''---'', []]"
    unfolding doc2_split split_result.simps doc2_upsert by (simp add: splitLF_def)
  have q: "\<not> endsWith (asc ''summary: '' @ [DQUOTE] @ asc ''T'') DQUOTE"
    by (simp add: endsWith_def)
  have k: "\<not> isSummaryLine (asc ''k'' @ [CJK_COLON] @ asc ''v'' @ [CJK_STOP, DQUOTE])"
    by (simp add: isSummaryLine_def startsWithCI_def startsWith_def upperAscii_def isSpace_def Let_def)
  from g l q k show ?thesis by (intro conjI)
qed

end
